theory Spec2Isabelle
  imports Complex_Main "HOL-Library.Multiset" "HOL-Library.Sublist"
begin

section \<open>Text\<close>

text \<open>
  A Python \<open>str\<close> is modelled as a \<^typ>\<open>string\<close> whose characters are read as the code
  points U+0000 to U+00FF. On that range the tables below are the ones of CPython 3:
  \<open>str.isspace\<close> (also the class \<open>\s\<close> of \<open>re\<close>), \<open>str.lower\<close>, the decimal digits of
  \<open>\d\<close> and the word characters of \<open>\b\<close>.
\<close>

definition code :: "char \<Rightarrow> nat" where
  "code c = of_char c"

definition between :: "nat \<Rightarrow> nat \<Rightarrow> char \<Rightarrow> bool" where
  "between lo hi c = (lo \<le> code c \<and> code c \<le> hi)"

definition is_space :: "char \<Rightarrow> bool" where
  "is_space c = (between 0x09 0x0D c \<or> between 0x1C 0x20 c \<or> code c = 0x85 \<or> code c = 0xA0)"

definition is_digit :: "char \<Rightarrow> bool" where
  "is_digit c = between 0x30 0x39 c"

definition is_word :: "char \<Rightarrow> bool" where
  "is_word c = (between 0x30 0x39 c \<or> between 0x41 0x5A c \<or> code c = 0x5F \<or> between 0x61 0x7A c
     \<or> code c = 0xAA \<or> between 0xB2 0xB3 c \<or> code c = 0xB5 \<or> between 0xB9 0xBA c
     \<or> between 0xBC 0xBE c \<or> between 0xC0 0xD6 c \<or> between 0xD8 0xF6 c \<or> between 0xF8 0xFF c)"

definition is_upper :: "char \<Rightarrow> bool" where
  "is_upper c = (between 0x41 0x5A c \<or> between 0xC0 0xD6 c \<or> between 0xD8 0xDE c)"

definition lower :: "char \<Rightarrow> char" where
  "lower c = (if is_upper c then char_of (code c + 32) else c)"

text \<open>The upper-case partner of a lower-case letter: the one character besides the letter
  itself that \<^const>\<open>lower\<close> sends to it.\<close>

definition partner :: "char \<Rightarrow> char" where
  "partner c = (if between 0x61 0x7A c \<or> between 0xE0 0xF6 c \<or> between 0xF8 0xFE c
                then char_of (code c - 32) else c)"

definition strip :: "string \<Rightarrow> string" where
  "strip s = rev (dropWhile is_space (rev (dropWhile is_space s)))"

definition startswith :: "string \<Rightarrow> string \<Rightarrow> bool" where
  "startswith s p = (take (length p) s = p)"

definition endswith :: "string \<Rightarrow> string \<Rightarrow> bool" where
  "endswith s p = (length p \<le> length s \<and> drop (length s - length p) s = p)"

section \<open>Regular expressions\<close>

text \<open>
  The patterns of the program are held as the trees \<open>re\<close> parses them into (LITERAL, IN,
  BRANCH, MAX_REPEAT, SUBPATTERN, AT_BOUNDARY); \<open>Str\<close> is a run of literals and a
  non-capturing group is its body. The fullwidth colon U+FF1A of the label patterns lies
  outside the modelled code points and is left out of its class.
\<close>

datatype citem = Lit char | Rng char char | CatSpace | CatDigit

datatype regex =
    Literal char
  | Str string
  | In "citem list"
  | AtBoundary
  | Seqs "regex list"
  | Branch "regex list"
  | MaxRepeat nat "nat option" regex
  | Subpattern nat regex

text \<open>A matcher state: the text already passed (reversed), the text ahead, and the groups
  captured so far, latest first.\<close>

type_synonym mstate = "string \<times> string \<times> (nat \<times> string) list"

definition ahead :: "mstate \<Rightarrow> string" where
  "ahead st = fst (snd st)"

text \<open>With IGNORECASE a literal is compared in lower case, and a set is matched when it
  holds a character with the same lower-case form.\<close>

definition literal_match :: "bool \<Rightarrow> char \<Rightarrow> char \<Rightarrow> bool" where
  "literal_match ic p c = (if ic then lower c = lower p else c = p)"

fun in_item :: "citem \<Rightarrow> char \<Rightarrow> bool" where
  "in_item (Lit p) c = (c = p)"
| "in_item (Rng lo hi) c = between (code lo) (code hi) c"
| "in_item CatSpace c = is_space c"
| "in_item CatDigit c = is_digit c"

definition item_match :: "bool \<Rightarrow> citem \<Rightarrow> char \<Rightarrow> bool" where
  "item_match ic it c =
     (if ic then in_item it (lower c) \<or> in_item it (partner (lower c)) else in_item it c)"

definition set_match :: "bool \<Rightarrow> citem list \<Rightarrow> char \<Rightarrow> bool" where
  "set_match ic items c = list_ex (\<lambda>it. item_match ic it c) items"

fun match_str :: "bool \<Rightarrow> string \<Rightarrow> mstate \<Rightarrow> mstate list" where
  "match_str ic [] st = [st]"
| "match_str ic (p # ps) (bef, [], caps) = []"
| "match_str ic (p # ps) (bef, c # aft, caps) =
     (if literal_match ic p c then match_str ic ps (c # bef, aft, caps) else [])"

definition at_boundary :: "string \<Rightarrow> string \<Rightarrow> bool" where
  "at_boundary bef aft =
     ((case bef of [] \<Rightarrow> False | b # _ \<Rightarrow> is_word b) \<noteq> (case aft of [] \<Rightarrow> False | a # _ \<Rightarrow> is_word a))"

text \<open>
  A greedy repeat: one more round of the body first, stopping here second. A round that
  consumes nothing is not repeated, so the length of the text ahead bounds the rounds.
\<close>

fun iter :: "(mstate \<Rightarrow> mstate list) \<Rightarrow> nat \<Rightarrow> nat \<Rightarrow> nat option \<Rightarrow> mstate \<Rightarrow> mstate list" where
  "iter f 0 lo hi st = (if lo = 0 then [st] else [])"
| "iter f (Suc k) lo hi st =
     (if hi = Some 0 then []
      else concat (map (\<lambda>st'. if length (ahead st') < length (ahead st)
                               then iter f k (lo - 1) (map_option (\<lambda>h. h - 1) hi) st' else [])
                       (f st)))
     @ (if lo = 0 then [st] else [])"

text \<open>All the ways a pattern matches at a state, in the order the backtracking matcher
  of \<open>re\<close> tries them: the head of the list is the match it reports.\<close>

fun ms :: "bool \<Rightarrow> regex \<Rightarrow> mstate \<Rightarrow> mstate list" where
  "ms ic (Literal p) st = match_str ic [p] st"
| "ms ic (Str ps) st = match_str ic ps st"
| "ms ic (In items) (bef, [], caps) = []"
| "ms ic (In items) (bef, c # aft, caps) =
     (if set_match ic items c then [(c # bef, aft, caps)] else [])"
| "ms ic AtBoundary (bef, aft, caps) = (if at_boundary bef aft then [(bef, aft, caps)] else [])"
| "ms ic (Seqs []) st = [st]"
| "ms ic (Seqs (r # rs)) st = concat (map (ms ic (Seqs rs)) (ms ic r st))"
| "ms ic (Branch []) st = []"
| "ms ic (Branch (r # rs)) st = ms ic r st @ ms ic (Branch rs) st"
| "ms ic (MaxRepeat lo hi r) st = iter (ms ic r) (length (ahead st)) lo hi st"
| "ms ic (Subpattern g r) (bef, aft, caps) =
     map (\<lambda>(bef', aft', caps'). (bef', aft', (g, take (length aft - length aft') aft) # caps'))
         (ms ic r (bef, aft, caps))"

text \<open>A match object: the text of the whole match and the captured groups.\<close>

type_synonym match = "string \<times> (nat \<times> string) list"

definition mk_match :: "string \<Rightarrow> mstate \<Rightarrow> match" where
  "mk_match aft st = (take (length aft - length (ahead st)) aft, snd (snd st))"

text \<open>\<open>pattern.search(text)\<close>: the first position, from the left, where the pattern matches.\<close>

fun search_from :: "bool \<Rightarrow> regex \<Rightarrow> string \<Rightarrow> string \<Rightarrow> match option" where
  "search_from ic r bef [] =
     (case ms ic r (bef, [], []) of [] \<Rightarrow> None | st # _ \<Rightarrow> Some (mk_match [] st))"
| "search_from ic r bef (c # aft) =
     (case ms ic r (bef, c # aft, []) of
        [] \<Rightarrow> search_from ic r (c # bef) aft
      | st # _ \<Rightarrow> Some (mk_match (c # aft) st))"

definition re_search :: "bool \<Rightarrow> regex \<Rightarrow> string \<Rightarrow> match option" where
  "re_search ic r text = search_from ic r [] text"

text \<open>\<open>Series.str.contains(regex)\<close> on one string.\<close>

definition str_contains :: "bool \<Rightarrow> regex \<Rightarrow> string \<Rightarrow> bool" where
  "str_contains ic r text = (re_search ic r text \<noteq> None)"

text \<open>\<open>match.groups()\<close> of a pattern with \<open>n\<close> groups.\<close>

definition groups :: "nat \<Rightarrow> match \<Rightarrow> string option list" where
  "groups n m = map (\<lambda>g. map_of (snd m) g) [1..<Suc n]"

text \<open>\<open>pattern.findall(text)\<close> of a pattern without groups: the matches from left to right,
  each search starting where the last match ended (one character on after an empty
  match).\<close>

fun findall_from :: "bool \<Rightarrow> regex \<Rightarrow> string \<Rightarrow> string \<Rightarrow> string list" where
  "findall_from ic r bef [] = (case ms ic r (bef, [], []) of [] \<Rightarrow> [] | st # _ \<Rightarrow> [[]])"
| "findall_from ic r bef (c # aft) =
     (case ms ic r (bef, c # aft, []) of
        [] \<Rightarrow> findall_from ic r (c # bef) aft
      | (bef', aft', caps') # _ \<Rightarrow>
          (if length aft' \<le> length aft
           then take (Suc (length aft) - length aft') (c # aft) # findall_from ic r bef' aft'
           else [] # findall_from ic r (c # bef) aft))"

definition re_findall :: "bool \<Rightarrow> regex \<Rightarrow> string \<Rightarrow> string list" where
  "re_findall ic r text = findall_from ic r [] text"

section \<open>Postings and frames\<close>

text \<open>
  A cell of a text column holds \<open>None\<close>, the float \<open>nan\<close> that pandas leaves for a missing
  value, or a string; a cell of the \<open>remoto\<close> column holds \<open>None\<close>, \<open>nan\<close> or a boolean; a
  cell of a salary column holds \<open>None\<close>, a float, an int, or a string. A Python float is a
  finite number, an infinity or \<open>nan\<close>; a Python int has no bound.
\<close>

datatype text_cell = TNone | TNaN | TStr string

datatype flag_cell = FNone | FNaN | FBool bool

datatype pyfloat = Finite real | PInf | NInf | NaN

datatype num_cell = NNone | NFloat pyfloat | NInt int | NStr string

record posting =
  site :: text_cell
  titulo :: text_cell
  empresa :: text_cell
  localizacao :: text_cell
  remoto :: flag_cell
  tipo_vaga :: text_cell
  salario_min :: num_cell
  salario_max :: num_cell
  moeda :: text_cell
  data_postagem :: text_cell
  link :: text_cell
  emails :: text_cell
  descricao :: text_cell
  email_recrutador :: text_cell
  nome_recrutador :: text_cell

text \<open>A DataFrame: the names of its columns and its rows in order. A field of a row
  counts only when its column is among the names.\<close>

record dataframe =
  columns :: "string list"
  rows :: "posting list"

definition df_empty :: "dataframe \<Rightarrow> bool" where
  "df_empty df = (rows df = [] \<or> columns df = [])"

text \<open>\<open>row.get(name)\<close>: the cell, or \<open>None\<close> when the frame has no such column.\<close>

definition get_text :: "dataframe \<Rightarrow> string \<Rightarrow> (posting \<Rightarrow> text_cell) \<Rightarrow> posting \<Rightarrow> text_cell" where
  "get_text df name field r = (if name \<in> set (columns df) then field r else TNone)"

definition get_num :: "dataframe \<Rightarrow> string \<Rightarrow> (posting \<Rightarrow> num_cell) \<Rightarrow> posting \<Rightarrow> num_cell" where
  "get_num df name field r = (if name \<in> set (columns df) then field r else NNone)"

text \<open>\<open>bool(x)\<close> and \<open>str(x)\<close> of a text cell: \<open>nan\<close> is true and prints as \<open>nan\<close>.\<close>

fun truthy :: "text_cell \<Rightarrow> bool" where
  "truthy TNone = False"
| "truthy TNaN = True"
| "truthy (TStr s) = (s \<noteq> [])"

fun py_str :: "text_cell \<Rightarrow> string" where
  "py_str TNone = ''None''"
| "py_str TNaN = ''nan''"
| "py_str (TStr s) = s"

text \<open>A returned \<open>str | None\<close> stored into a column.\<close>

fun to_cell :: "string option \<Rightarrow> text_cell" where
  "to_cell None = TNone"
| "to_cell (Some s) = TStr s"

section \<open>recruiter.py\<close>

definition EMAIL_RE :: regex where
  "EMAIL_RE =
   Seqs [MaxRepeat 1 None (In [Rng (CHR ''a'') (CHR ''z''), Rng (CHR ''A'') (CHR ''Z''),
     Rng (CHR ''0'') (CHR ''9''), Lit (CHR ''.''), Lit (CHR ''_''), Lit (CHR ''%''),
     Lit (CHR ''+''), Lit (CHR ''-'')]), Literal (CHR ''@''),
     MaxRepeat 1 None (In [Rng (CHR ''a'') (CHR ''z''), Rng (CHR ''A'') (CHR ''Z''),
     Rng (CHR ''0'') (CHR ''9''), Lit (CHR ''.''), Lit (CHR ''-'')]), Literal (CHR ''.''),
     MaxRepeat 2 None (In [Rng (CHR ''a'') (CHR ''z''), Rng (CHR ''A'') (CHR ''Z'')])]"

text \<open>The name every label pattern captures:
  \<^verbatim>\<open>[A-Z\<dots>][a-z\<dots>]+(?:\s+[A-Z\<dots>][a-z\<dots>]+){1,3}\<close>, the ranges running on to U+00DA and U+00FA.\<close>

definition person_name :: regex where
  "person_name =
   Seqs [In [Rng (CHR ''A'') (CHR ''Z''), Rng (CHR 0xC0) (CHR 0xDA)],
     MaxRepeat 1 None (In [Rng (CHR ''a'') (CHR ''z''), Rng (CHR 0xE0) (CHR 0xFA)]),
     MaxRepeat 1 (Some 3) (Seqs [MaxRepeat 1 None (In [CatSpace]),
     In [Rng (CHR ''A'') (CHR ''Z''), Rng (CHR 0xC0) (CHR 0xDA)],
     MaxRepeat 1 None (In [Rng (CHR ''a'') (CHR ''z''), Rng (CHR 0xE0) (CHR 0xFA)])])]"

text \<open>The label patterns in the order of the source; joined by \<open>|\<close>, the group of the k-th
  pattern is group k.\<close>

definition NAME_PATTERNS :: "regex list" where
  "NAME_PATTERNS = [
     Seqs [Str ''recrut'', In [Lit (CHR ''a''), Lit (CHR ''o'')], Str ''dor'',
       MaxRepeat 0 (Some 1) (Literal (CHR ''a'')), MaxRepeat 0 None (In [CatSpace]),
       In [Lit (CHR '':'')], MaxRepeat 0 None (In [CatSpace]), Subpattern 1 person_name],
     Seqs [Str ''contato'', MaxRepeat 0 None (In [CatSpace]), In [Lit (CHR '':'')],
       MaxRepeat 0 None (In [CatSpace]), Subpattern 2 person_name],
     Seqs [Str ''posted'', MaxRepeat 1 None (In [CatSpace]), Str ''by'',
       MaxRepeat 1 None (In [CatSpace]), Subpattern 3 person_name],
     Seqs [Str ''hiring'', MaxRepeat 1 None (In [CatSpace]), Str ''manager'',
       MaxRepeat 0 None (In [CatSpace]), In [Lit (CHR '':'')],
       MaxRepeat 0 None (In [CatSpace]), Subpattern 4 person_name],
     Seqs [Str ''contact'', MaxRepeat 1 None (In [CatSpace]), Subpattern 5 person_name,
       MaxRepeat 1 None (In [CatSpace]), Str ''at'', AtBoundary],
     Seqs [Str ''recruiter'', MaxRepeat 0 None (In [CatSpace]), In [Lit (CHR '':'')],
       MaxRepeat 0 None (In [CatSpace]), Subpattern 6 person_name],
     Seqs [Str ''respons'', In [Lit (CHR ''a''), Lit (CHR 0xE1)], Str ''vel'',
       MaxRepeat 0 None (In [CatSpace]), In [Lit (CHR '':'')],
       MaxRepeat 0 None (In [CatSpace]), Subpattern 7 person_name],
     Seqs [Str ''apply'', MaxRepeat 1 None (In [CatSpace]), Str ''to'',
       MaxRepeat 1 None (In [CatSpace]), Subpattern 8 person_name]
   ]"

definition NAME_RE :: regex where
  "NAME_RE = Branch NAME_PATTERNS"

definition extract_email_from_text :: "string \<Rightarrow> string option" where
  "extract_email_from_text text =
     (if text = [] then None
      else (let found = re_findall True EMAIL_RE text;
                filtered = filter (\<lambda>e. \<not> (endswith e ''.png'' \<or> endswith e ''.jpg''
                                           \<or> endswith e ''.gif'' \<or> endswith e ''.svg'')) found
            in case filtered of [] \<Rightarrow> None | e # _ \<Rightarrow> Some e))"

text \<open>The loop over \<open>m.groups()\<close>: the first group that is neither \<open>None\<close> nor empty.\<close>

fun first_group :: "string option list \<Rightarrow> string option" where
  "first_group [] = None"
| "first_group (None # gs) = first_group gs"
| "first_group (Some g # gs) = (if g \<noteq> [] then Some (strip g) else first_group gs)"

definition extract_name_from_text :: "string \<Rightarrow> string option" where
  "extract_name_from_text text =
     (if text = [] then None
      else (case re_search True NAME_RE text of
              None \<Rightarrow> None
            | Some m \<Rightarrow> first_group (groups 8 m)))"

text \<open>\<open>str(row.get("descricao") or "")\<close>.\<close>

definition descricao_text :: "dataframe \<Rightarrow> posting \<Rightarrow> string" where
  "descricao_text df r =
     (let d = get_text df ''descricao'' descricao r in if truthy d then py_str d else [])"

definition get_email :: "dataframe \<Rightarrow> posting \<Rightarrow> string option" where
  "get_email df r =
     (let raw = get_text df ''emails'' emails r
      in if truthy raw \<and> py_str raw \<notin> {[], ''nan'', ''None''}
         then Some (strip (py_str raw))
         else extract_email_from_text (descricao_text df r))"

definition get_name :: "dataframe \<Rightarrow> posting \<Rightarrow> string option" where
  "get_name df r = extract_name_from_text (descricao_text df r)"

text \<open>Assigning a column: a new name goes last, an old one keeps its place.\<close>

definition add_column :: "string \<Rightarrow> string list \<Rightarrow> string list" where
  "add_column name cols = (if name \<in> set cols then cols else cols @ [name])"

definition enrich_row :: "dataframe \<Rightarrow> posting \<Rightarrow> posting" where
  "enrich_row df r =
     r\<lparr>email_recrutador := to_cell (get_email df r),
       nome_recrutador := to_cell (get_name df r),
       emails := TNone\<rparr>"

definition enrich_recruiter_info :: "dataframe \<Rightarrow> dataframe" where
  "enrich_recruiter_info df =
     \<lparr>columns = removeAll ''emails''
                  (add_column ''nome_recrutador'' (add_column ''email_recrutador'' (columns df))),
      rows = map (enrich_row df) (rows df)\<rparr>"

section \<open>filters.py\<close>

text \<open>\<open>Series.fillna("").astype(str)\<close> on one cell of a text column.\<close>

fun fillna_str :: "text_cell \<Rightarrow> string" where
  "fillna_str (TStr s) = s"
| "fillna_str TNone = []"
| "fillna_str TNaN = []"

text \<open>The mask both keyword filters build: the pattern is searched in \<open>titulo\<close> and in
  \<open>descricao\<close>, each when the frame has the column.\<close>

definition row_mask :: "dataframe \<Rightarrow> regex \<Rightarrow> posting \<Rightarrow> bool" where
  "row_mask df regex r =
     ((''titulo'' \<in> set (columns df) \<and> str_contains True regex (fillna_str (titulo r)))
      \<or> (''descricao'' \<in> set (columns df) \<and> str_contains True regex (fillna_str (descricao r))))"

text \<open>\<open>re.escape(s)\<close>, compiled: the pattern that matches \<open>s\<close> literally.\<close>

definition re_escape :: "string \<Rightarrow> regex" where
  "re_escape s = Str s"

definition filter_by_skills :: "dataframe \<Rightarrow> string list \<Rightarrow> dataframe" where
  "filter_by_skills df skills =
     (if df_empty df \<or> skills = [] then df
      else (let pattern = map re_escape (filter (\<lambda>s. s \<noteq> []) (map strip skills))
            in if pattern = [] then df
               else df\<lparr>rows := filter (row_mask df (Branch pattern)) (rows df)\<rparr>))"

definition filter_remote :: "dataframe \<Rightarrow> dataframe" where
  "filter_remote df =
     (if df_empty df then df
      else if ''remoto'' \<notin> set (columns df) then df
      else df\<lparr>rows := filter (\<lambda>r. remoto r = FBool True) (rows df)\<rparr>)"

text \<open>\<open>drop_duplicates(subset=["link"], keep="first")\<close>: the rows are read in order and a
  row is dropped when its \<open>link\<close> cell was seen before; \<open>None\<close> and \<open>nan\<close> are keys like any
  other.\<close>

fun drop_seen :: "text_cell list \<Rightarrow> posting list \<Rightarrow> posting list" where
  "drop_seen seen [] = []"
| "drop_seen seen (r # rs) =
     (if link r \<in> set seen then drop_seen seen rs else r # drop_seen (link r # seen) rs)"

definition drop_duplicates :: "posting list \<Rightarrow> posting list" where
  "drop_duplicates rs = drop_seen [] rs"

definition deduplicate :: "dataframe \<Rightarrow> dataframe" where
  "deduplicate df =
     (if df_empty df then df
      else if ''link'' \<in> set (columns df) then df\<lparr>rows := drop_duplicates (rows df)\<rparr>
      else df)"

definition trainee_keywords :: "regex list" where
  "trainee_keywords = [
     Seqs [AtBoundary, Str ''trainee'', AtBoundary],
     Seqs [AtBoundary, Str ''estagi'', In [Lit (CHR ''a''), Lit (CHR 0xE1)], Str ''ri'',
       MaxRepeat 0 (Some 1) (In [Lit (CHR ''o''), Lit (CHR ''a'')]), AtBoundary],
     Seqs [AtBoundary, Str ''est'', In [Lit (CHR ''a''), Lit (CHR 0xE1)], Str ''gio'',
       AtBoundary],
     Seqs [AtBoundary, Str ''stage'', AtBoundary],
     Seqs [AtBoundary, Str ''intern'', MaxRepeat 0 (Some 1) (Str ''ship''), AtBoundary],
     Seqs [AtBoundary, Str ''aprendiz'', AtBoundary],
     Seqs [AtBoundary, Str ''jovem'', MaxRepeat 1 None (In [CatSpace]), Str ''aprendiz'',
       AtBoundary],
     Seqs [AtBoundary, Str ''programa'', MaxRepeat 1 None (In [CatSpace]), Str ''de'',
       MaxRepeat 1 None (In [CatSpace]), Str ''est'', In [Lit (CHR ''a''), Lit (CHR 0xE1)],
       Str ''gio'', AtBoundary]
   ]"

definition junior_keywords :: "regex list" where
  "junior_keywords = [
     Seqs [AtBoundary, Literal (CHR ''j''), In [Lit (CHR ''u''), Lit (CHR 0xFA)],
       Str ''nior'', AtBoundary],
     Seqs [AtBoundary, Str ''jr'', MaxRepeat 0 (Some 1) (Literal (CHR ''.'')), AtBoundary],
     Seqs [AtBoundary, Str ''entry'', MaxRepeat 0 (Some 1) (In [CatSpace, Lit (CHR ''-'')]),
       Str ''level'', AtBoundary],
     Seqs [AtBoundary, Str ''rec'', In [Lit (CHR ''e''), Lit (CHR 0xE9)],
       Literal (CHR ''m''), MaxRepeat 0 (Some 1) (In [CatSpace, Lit (CHR ''-'')]),
       Str ''formad'', In [Lit (CHR ''o''), Lit (CHR ''a'')], AtBoundary],
     Seqs [AtBoundary, Str ''sem'', MaxRepeat 1 None (In [CatSpace]), Str ''experi'',
       In [Lit (CHR ''e''), Lit (CHR 0xEA)], Str ''ncia'', AtBoundary],
     Seqs [AtBoundary, Str ''pouca'', MaxRepeat 1 None (In [CatSpace]), Str ''experi'',
       In [Lit (CHR ''e''), Lit (CHR 0xEA)], Str ''ncia'', AtBoundary],
     Seqs [AtBoundary, Str ''iniciante'', AtBoundary],
     Seqs [AtBoundary, Str ''primeiro'', MaxRepeat 1 None (In [CatSpace]), Str ''emprego'',
       AtBoundary],
     Seqs [AtBoundary, Literal (CHR ''n''), In [Lit (CHR ''i''), Lit (CHR 0xED)],
       Str ''vel'', MaxRepeat 1 None (In [CatSpace]), Str ''inicial'', AtBoundary],
     Seqs [AtBoundary, Literal (CHR ''n''), In [Lit (CHR ''i''), Lit (CHR 0xED)],
       Str ''vel'', MaxRepeat 1 None (In [CatSpace]), Literal (CHR ''j''), In [Lit (CHR ''u''),
       Lit (CHR 0xFA)], Str ''nior'', AtBoundary],
     Seqs [AtBoundary, Literal (CHR ''0''), MaxRepeat 0 None (In [CatSpace]),
       In [Lit (CHR ''a''), Lit (CHR 0xE0)], MaxRepeat 0 None (In [CatSpace]),
       Literal (CHR ''2''), MaxRepeat 1 None (In [CatSpace]), Str ''ano'',
       MaxRepeat 0 (Some 1) (Literal (CHR ''s'')), AtBoundary],
     Seqs [AtBoundary, Str ''at'', In [Lit (CHR ''e''), Lit (CHR 0xE9)],
       MaxRepeat 1 None (In [CatSpace]), Literal (CHR ''2''), MaxRepeat 1 None (In [CatSpace]),
       Str ''ano'', MaxRepeat 0 (Some 1) (Literal (CHR ''s'')), AtBoundary],
     Seqs [AtBoundary, Str ''at'', In [Lit (CHR ''e''), Lit (CHR 0xE9)],
       MaxRepeat 1 None (In [CatSpace]), Literal (CHR ''1''), MaxRepeat 1 None (In [CatSpace]),
       Str ''ano'', AtBoundary],
     Seqs [AtBoundary, Str ''jovem'', MaxRepeat 1 None (In [CatSpace]), Str ''profissional'',
       AtBoundary],
     Seqs [AtBoundary, Str ''jovem'', MaxRepeat 1 None (In [CatSpace]), Str ''talento'',
       AtBoundary],
     Seqs [AtBoundary, Str ''early'', MaxRepeat 0 (Some 1) (In [CatSpace, Lit (CHR ''-'')]),
       Str ''career'', AtBoundary],
     Seqs [AtBoundary, Str ''formand'', In [Lit (CHR ''o''), Lit (CHR ''a'')], AtBoundary],
     Seqs [AtBoundary, Str ''junior'', MaxRepeat 1 None (In [CatSpace]), Str ''developer'',
       AtBoundary],
     Seqs [AtBoundary, Str ''junior'', MaxRepeat 1 None (In [CatSpace]), Str ''dev'',
       AtBoundary],
     Seqs [AtBoundary, Str ''dev'', MaxRepeat 1 None (In [CatSpace]), Literal (CHR ''j''),
       In [Lit (CHR ''u''), Lit (CHR 0xFA)], Str ''nior'', AtBoundary]
   ]"

definition pleno_keywords :: "regex list" where
  "pleno_keywords = [
     Seqs [AtBoundary, Str ''pleno'', AtBoundary],
     Seqs [AtBoundary, Literal (CHR ''n''), Literal (CHR 0xED), Str ''vel'',
       MaxRepeat 1 None (In [CatSpace]), Str ''pleno'', AtBoundary],
     Seqs [AtBoundary, Str ''mid'', MaxRepeat 0 (Some 1) (In [CatSpace, Lit (CHR ''-'')]),
       Str ''level'', AtBoundary],
     Seqs [AtBoundary, Str ''middle'', AtBoundary],
     Seqs [AtBoundary, Str ''intermedi'', In [Lit (CHR ''a''), Lit (CHR 0xE1)], Str ''ri'',
       In [Lit (CHR ''o''), Lit (CHR ''a'')], AtBoundary],
     Seqs [AtBoundary, In [Lit (CHR ''2''), Lit (CHR ''3'')],
       MaxRepeat 0 None (In [CatSpace]), In [Lit (CHR ''a''), Lit (CHR 0xE0)],
       MaxRepeat 0 None (In [CatSpace]), Literal (CHR ''5''), MaxRepeat 1 None (In [CatSpace]),
       Str ''ano'', MaxRepeat 0 (Some 1) (Literal (CHR ''s'')), AtBoundary],
     Seqs [AtBoundary, Str ''2+'', MaxRepeat 0 None (In [CatSpace]), Str ''ano'',
       MaxRepeat 0 (Some 1) (Literal (CHR ''s'')), AtBoundary],
     Seqs [AtBoundary, Str ''analista'', AtBoundary]
   ]"

definition senior_keywords :: "regex list" where
  "senior_keywords = [
     Seqs [AtBoundary, Literal (CHR ''s''), In [Lit (CHR ''e''), Lit (CHR 0xEA)],
       Str ''nior'', AtBoundary],
     Seqs [AtBoundary, Str ''sr'', MaxRepeat 0 (Some 1) (Literal (CHR ''.'')), AtBoundary],
     Seqs [AtBoundary, Literal (CHR ''n''), In [Lit (CHR ''i''), Lit (CHR 0xED)],
       Str ''vel'', MaxRepeat 1 None (In [CatSpace]), Literal (CHR ''s''), In [Lit (CHR ''e''),
       Lit (CHR 0xEA)], Str ''nior'', AtBoundary],
     Seqs [AtBoundary, Str ''especialista'', AtBoundary],
     Seqs [AtBoundary, Str ''tech'', MaxRepeat 1 None (In [CatSpace]), Str ''lead'',
       AtBoundary],
     Seqs [AtBoundary, Str ''engenheiro'', MaxRepeat 1 None (In [CatSpace]),
       Literal (CHR ''s''), In [Lit (CHR ''e''), Lit (CHR 0xEA)], Str ''nior'', AtBoundary],
     Seqs [AtBoundary, Literal (CHR ''5''), MaxRepeat 0 None (In [CatSpace]),
       Literal (CHR ''+''), MaxRepeat 0 None (In [CatSpace]), Str ''ano'',
       MaxRepeat 0 (Some 1) (Literal (CHR ''s'')), AtBoundary],
     Seqs [AtBoundary, Str ''mais'', MaxRepeat 1 None (In [CatSpace]), Str ''de'',
       MaxRepeat 1 None (In [CatSpace]), Literal (CHR ''5''), MaxRepeat 1 None (In [CatSpace]),
       Str ''ano'', MaxRepeat 0 (Some 1) (Literal (CHR ''s'')), AtBoundary],
     Seqs [AtBoundary, Literal (CHR ''6''), MaxRepeat 0 None (In [CatSpace]),
       In [Lit (CHR ''a''), Lit (CHR 0xE0)], MaxRepeat 0 None (In [CatSpace]),
       MaxRepeat 1 None (In [CatDigit]), MaxRepeat 1 None (In [CatSpace]), Str ''ano'',
       MaxRepeat 0 (Some 1) (Literal (CHR ''s'')), AtBoundary],
     Seqs [AtBoundary, Str ''principal'', MaxRepeat 1 None (In [CatSpace]), Str ''engineer'',
       AtBoundary],
     Seqs [AtBoundary, Str ''staff'', MaxRepeat 1 None (In [CatSpace]), Str ''engineer'',
       AtBoundary],
     Seqs [AtBoundary, Str ''architect'', AtBoundary],
     Seqs [AtBoundary, Str ''arquiteto'', AtBoundary],
     Seqs [AtBoundary, Str ''lead'', MaxRepeat 1 None (In [CatSpace]), Str ''developer'',
       AtBoundary],
     Seqs [AtBoundary, Str ''lead'', MaxRepeat 1 None (In [CatSpace]), Str ''dev'',
       AtBoundary]
   ]"

definition SENIORITY_KEYWORDS :: "(string \<times> regex list) list" where
  "SENIORITY_KEYWORDS =
     [(''trainee'', trainee_keywords), (''junior'', junior_keywords),
      (''pleno'', pleno_keywords), (''senior'', senior_keywords)]"

text \<open>\<open>SENIORITY_KEYWORDS.get(level, [])\<close>.\<close>

definition keywords_of :: "string \<Rightarrow> regex list" where
  "keywords_of level = (case map_of SENIORITY_KEYWORDS level of None \<Rightarrow> [] | Some ps \<Rightarrow> ps)"

definition filter_by_seniority :: "dataframe \<Rightarrow> string list \<Rightarrow> dataframe" where
  "filter_by_seniority df levels =
     (if df_empty df \<or> levels = [] then df
      else (let patterns = concat (map keywords_of levels)
            in if patterns = [] then df
               else df\<lparr>rows := filter (row_mask df (Branch patterns)) (rows df)\<rparr>))"

text \<open>\<open>df["site"].str.startswith("post_", na=False)\<close> on one row of a column of Python
  objects, as the adapters build it.\<close>

definition is_post :: "posting \<Rightarrow> bool" where
  "is_post r = (case site r of TStr s \<Rightarrow> startswith s ''post_'' | _ \<Rightarrow> False)"

text \<open>The first step of \<open>apply_all_filters\<close>: job boards and posts are deduplicated apart
  and put together again, the job boards first.\<close>

definition dedup_step :: "dataframe \<Rightarrow> dataframe" where
  "dedup_step df =
     (if ''site'' \<in> set (columns df)
      then (let df_jobs = deduplicate (df\<lparr>rows := filter (\<lambda>r. \<not> is_post r) (rows df)\<rparr>);
                df_posts = deduplicate (df\<lparr>rows := filter is_post (rows df)\<rparr>)
            in df\<lparr>rows := rows df_jobs @ rows df_posts\<rparr>)
      else deduplicate df)"

text \<open>The optional steps of \<open>apply_all_filters\<close>: a flag that is off, and a list that is
  \<open>None\<close> or empty, skip the filter.\<close>

definition remote_step :: "bool \<Rightarrow> dataframe \<Rightarrow> dataframe" where
  "remote_step remote_only df = (if remote_only then filter_remote df else df)"

definition skills_step :: "string list option \<Rightarrow> dataframe \<Rightarrow> dataframe" where
  "skills_step skills df =
     (case skills of None \<Rightarrow> df | Some ks \<Rightarrow> if ks = [] then df else filter_by_skills df ks)"

definition seniority_step :: "string list option \<Rightarrow> dataframe \<Rightarrow> dataframe" where
  "seniority_step seniority df =
     (case seniority of None \<Rightarrow> df | Some ls \<Rightarrow> if ls = [] then df else filter_by_seniority df ls)"

definition apply_all_filters ::
    "dataframe \<Rightarrow> string list option \<Rightarrow> bool \<Rightarrow> string list option \<Rightarrow> dataframe" where
  "apply_all_filters df skills remote_only seniority =
     seniority_step seniority (skills_step skills (remote_step remote_only (dedup_step df)))"

section \<open>database.py\<close>

text \<open>
  A row of the table \<open>vagas\<close>, without its surrogate key \<open>id\<close>; a column that holds NULL is
  \<open>None\<close>. The table is the list of its rows in the order they were inserted.
\<close>

record vaga =
  v_link :: "string option"
  v_site :: "string option"
  v_titulo :: "string option"
  v_empresa :: "string option"
  v_localizacao :: "string option"
  v_remoto :: int
  v_tipo_vaga :: "string option"
  v_salario_min :: "pyfloat option"
  v_salario_max :: "pyfloat option"
  v_moeda :: "string option"
  v_data_postagem :: "string option"
  v_email_recrutador :: "string option"
  v_nome_recrutador :: "string option"
  v_termo_busca :: string
  v_data_coleta :: string

text \<open>The helper \<open>_str\<close>.\<close>

definition db_str :: "text_cell \<Rightarrow> string option" where
  "db_str val =
     (if val = TNone then None
      else (let s = strip (py_str val)
            in if s \<notin> {[], ''nan'', ''None''} then Some s else None))"

text \<open>
  \<open>float(n)\<close> of an int \<open>n\<close> is the nearest number with 53 significant bits, the even one
  of two equally near, with the sign of \<open>n\<close>; it raises OverflowError when that number is
  too large for a float, which is when its magnitude reaches \<open>2 ^ 1024\<close>. \<open>bit_length\<close> is
  \<open>int.bit_length\<close> on the magnitude, and \<open>round_half_even m e\<close> is \<open>m / 2 ^ e\<close> rounded to
  an integer.
\<close>

datatype py_exc = TypeError | ValueError | OverflowError

function bit_length :: "int \<Rightarrow> nat" where
  "bit_length m = (if m \<le> 0 then 0 else Suc (bit_length (m div 2)))"
  by pat_completeness auto

termination bit_length
  by (relation "measure nat") auto

declare bit_length.simps [simp del]

definition round_half_even :: "int \<Rightarrow> nat \<Rightarrow> int" where
  "round_half_even m e =
     (let q = m div 2 ^ e; r = m mod 2 ^ e
      in if 2 ^ e < 2 * r \<or> (2 * r = 2 ^ e \<and> odd q) then q + 1 else q)"

definition int_to_float :: "int \<Rightarrow> py_exc + pyfloat" where
  "int_to_float n =
     (let m = \<bar>n\<bar>;
          e = bit_length m - 53;
          x = round_half_even m e * 2 ^ e
      in if 2 ^ 1024 \<le> x then Inl OverflowError else Inr (Finite (of_int (sgn n * x))))"

text \<open>
  \<open>float(val)\<close> raises TypeError on \<open>None\<close> and ValueError on a string it cannot read.
  Which strings it reads, and as what, is the parameter \<open>parse\<close>; a string never
  overflows, \<open>float("1e400")\<close> is \<open>inf\<close>.
\<close>

fun py_float :: "(string \<Rightarrow> pyfloat option) \<Rightarrow> num_cell \<Rightarrow> py_exc + pyfloat" where
  "py_float parse NNone = Inl TypeError"
| "py_float parse (NFloat f) = Inr f"
| "py_float parse (NInt n) = int_to_float n"
| "py_float parse (NStr s) = (case parse s of None \<Rightarrow> Inl ValueError | Some f \<Rightarrow> Inr f)"

text \<open>The helper \<open>_float\<close>: it catches TypeError and ValueError and returns \<open>None\<close> for
  them; an OverflowError leaves it.\<close>

definition db_float :: "(string \<Rightarrow> pyfloat option) \<Rightarrow> num_cell \<Rightarrow> py_exc + pyfloat option" where
  "db_float parse val =
     (case py_float parse val of
        Inr f \<Rightarrow> Inr (Some f)
      | Inl TypeError \<Rightarrow> Inr None
      | Inl ValueError \<Rightarrow> Inr None
      | Inl OverflowError \<Rightarrow> Inl OverflowError)"

text \<open>Binding a parameter to a REAL column: SQLite stores \<open>nan\<close> as NULL, and an infinity
  as it is.\<close>

definition bind_real :: "pyfloat option \<Rightarrow> pyfloat option" where
  "bind_real p = (if p = Some NaN then None else p)"

text \<open>\<open>int(bool(row.get("remoto", False)))\<close>.\<close>

definition remoto_int :: "dataframe \<Rightarrow> posting \<Rightarrow> int" where
  "remoto_int df r =
     (if ''remoto'' \<in> set (columns df)
      then (case remoto r of FNone \<Rightarrow> 0 | FNaN \<Rightarrow> 1 | FBool b \<Rightarrow> (if b then 1 else 0))
      else 0)"

text \<open>
  The parameters of the INSERT statement for one row of the frame, or the exception that
  building them raises. Of the calls in the tuple only the two of \<open>_float\<close> can raise, the
  one for \<open>salario_min\<close> first.
\<close>

definition row_values ::
    "(string \<Rightarrow> pyfloat option) \<Rightarrow> dataframe \<Rightarrow> string \<Rightarrow> string \<Rightarrow> posting \<Rightarrow> py_exc + vaga" where
  "row_values parse df search_term coleta r =
     (case db_float parse (get_num df ''salario_min'' salario_min r) of
        Inl e \<Rightarrow> Inl e
      | Inr lo \<Rightarrow>
          (case db_float parse (get_num df ''salario_max'' salario_max r) of
             Inl e \<Rightarrow> Inl e
           | Inr hi \<Rightarrow>
               Inr \<lparr>v_link = db_str (get_text df ''link'' link r),
                    v_site = db_str (get_text df ''site'' site r),
                    v_titulo = db_str (get_text df ''titulo'' titulo r),
                    v_empresa = db_str (get_text df ''empresa'' empresa r),
                    v_localizacao = db_str (get_text df ''localizacao'' localizacao r),
                    v_remoto = remoto_int df r,
                    v_tipo_vaga = db_str (get_text df ''tipo_vaga'' tipo_vaga r),
                    v_salario_min = bind_real lo,
                    v_salario_max = bind_real hi,
                    v_moeda = db_str (get_text df ''moeda'' moeda r),
                    v_data_postagem = db_str (get_text df ''data_postagem'' data_postagem r),
                    v_email_recrutador = db_str (get_text df ''email_recrutador'' email_recrutador r),
                    v_nome_recrutador = db_str (get_text df ''nome_recrutador'' nome_recrutador r),
                    v_termo_busca = search_term,
                    v_data_coleta = coleta\<rparr>))"

text \<open>
  \<open>INSERT OR IGNORE\<close> followed by \<open>SELECT changes()\<close>: the column \<open>link\<close> is UNIQUE, so the
  row is ignored, with no change, when its link is not NULL and a stored row has the same
  link; NULL links never collide.
\<close>

definition insert_or_ignore :: "vaga list \<Rightarrow> vaga \<Rightarrow> vaga list \<times> nat" where
  "insert_or_ignore tbl v =
     (if v_link v \<noteq> None \<and> v_link v \<in> set (map v_link tbl) then (tbl, 0) else (tbl @ [v], 1))"

text \<open>
  The loop of \<open>save_jobs\<close> over the rows, the table and the counter \<open>inserted\<close> passed
  along. The body is inside \<open>try\<close>, and \<open>except Exception: pass\<close> goes on with the next
  row: a row whose parameters raise is neither inserted nor counted.
\<close>

fun save_rows ::
    "(posting \<Rightarrow> py_exc + vaga) \<Rightarrow> vaga list \<Rightarrow> nat \<Rightarrow> posting list \<Rightarrow> nat \<times> vaga list" where
  "save_rows vals tbl inserted [] = (inserted, tbl)"
| "save_rows vals tbl inserted (r # rs) =
     (case vals r of
        Inl e \<Rightarrow> save_rows vals tbl inserted rs
      | Inr v \<Rightarrow>
          (case insert_or_ignore tbl v of
             (tbl', changes) \<Rightarrow>
               save_rows vals tbl' (if changes \<noteq> 0 then inserted + 1 else inserted) rs))"

text \<open>\<open>save_jobs\<close> returns the number of inserted rows; the table after the call is the
  second component. \<open>coleta\<close> is the time of the call as \<open>strftime\<close> prints it.\<close>

definition save_jobs ::
    "(string \<Rightarrow> pyfloat option) \<Rightarrow> vaga list \<Rightarrow> dataframe \<Rightarrow> string \<Rightarrow> string \<Rightarrow> nat \<times> vaga list" where
  "save_jobs parse tbl df search_term coleta =
     (if df_empty df then (0, tbl)
      else save_rows (row_values parse df search_term coleta) tbl 0 (rows df))"

text \<open>The \<open>link\<close> parameter of the INSERT statement for a row: NULL when the link is
  missing or empty.\<close>

definition link_param :: "dataframe \<Rightarrow> posting \<Rightarrow> string option" where
  "link_param df r = db_str (get_text df ''link'' link r)"

text \<open>A row is skipped when building its parameters raises.\<close>

definition skipped :: "(string \<Rightarrow> pyfloat option) \<Rightarrow> dataframe \<Rightarrow> posting \<Rightarrow> bool" where
  "skipped parse df r = isl (row_values parse df [] [] r)"

text \<open>An int too large for a float.\<close>

definition too_large :: "num_cell \<Rightarrow> bool" where
  "too_large val = (case val of NInt n \<Rightarrow> 2 ^ 1024 - 2 ^ 970 \<le> \<bar>n\<bar> | _ \<Rightarrow> False)"

section \<open>What a pattern can match\<close>

text \<open>
  The strings a pattern can match, without regard to what stands around them (a word
  boundary counts as the empty string), and the groups a pattern holds. They describe the
  results of the matcher; the program does not compute them.
\<close>

fun lang :: "bool \<Rightarrow> regex \<Rightarrow> string set" where
  "lang ic (Literal p) = {[c] | c. literal_match ic p c}"
| "lang ic (Str ps) = {w. list_all2 (literal_match ic) ps w}"
| "lang ic (In items) = {[c] | c. set_match ic items c}"
| "lang ic AtBoundary = {[]}"
| "lang ic (Seqs []) = {[]}"
| "lang ic (Seqs (r # rs)) = {u @ v | u v. u \<in> lang ic r \<and> v \<in> lang ic (Seqs rs)}"
| "lang ic (Branch []) = {}"
| "lang ic (Branch (r # rs)) = lang ic r \<union> lang ic (Branch rs)"
| "lang ic (MaxRepeat lo hi r) =
     {concat ws | ws. lo \<le> length ws \<and> (case hi of None \<Rightarrow> True | Some h \<Rightarrow> length ws \<le> h)
                      \<and> set ws \<subseteq> lang ic r}"
| "lang ic (Subpattern g r) = lang ic r"

fun subpatterns :: "regex \<Rightarrow> (nat \<times> regex) set" where
  "subpatterns (Subpattern g r) = insert (g, r) (subpatterns r)"
| "subpatterns (Seqs []) = {}"
| "subpatterns (Seqs (r # rs)) = subpatterns r \<union> subpatterns (Seqs rs)"
| "subpatterns (Branch []) = {}"
| "subpatterns (Branch (r # rs)) = subpatterns r \<union> subpatterns (Branch rs)"
| "subpatterns (MaxRepeat lo hi r) = subpatterns r"
| "subpatterns (Literal p) = {}"
| "subpatterns (Str ps) = {}"
| "subpatterns (In items) = {}"
| "subpatterns AtBoundary = {}"

text \<open>The texts a group of the pattern can capture.\<close>

definition captured :: "bool \<Rightarrow> regex \<Rightarrow> (nat \<times> string) set" where
  "captured ic r = {(g, x). \<exists>q. (g, q) \<in> subpatterns r \<and> x \<in> lang ic q}"

text \<open>A state reached from another by matching a string of \<open>L\<close>: the string has moved from
  the text ahead to the text passed, and the new groups, all from \<open>G\<close>, stand before the
  old.\<close>

definition extends :: "string set \<Rightarrow> (nat \<times> string) set \<Rightarrow> mstate \<Rightarrow> mstate \<Rightarrow> bool" where
  "extends L G st st' =
     (\<exists>w new. w \<in> L \<and> fst (snd st) = w @ fst (snd st') \<and> fst st' = rev w @ fst st
              \<and> snd (snd st') = new @ snd (snd st) \<and> set new \<subseteq> G)"

text \<open>A pattern that, wherever it matches, captures a group.\<close>

fun binds :: "regex \<Rightarrow> bool" where
  "binds (Subpattern g r) = True"
| "binds (Seqs []) = False"
| "binds (Seqs (r # rs)) = (binds r \<or> binds (Seqs rs))"
| "binds (Branch rs) = False"
| "binds (MaxRepeat lo hi r) = False"
| "binds (Literal p) = False"
| "binds (Str ps) = False"
| "binds (In items) = False"
| "binds AtBoundary = False"

text \<open>The pattern matches in the text \<open>p @ q\<close> at the place after \<open>p\<close>; the text of a group
  in the match reported there.\<close>

definition matches_at :: "regex \<Rightarrow> string \<Rightarrow> string \<Rightarrow> bool" where
  "matches_at r p q = (ms True r (rev p, q, []) \<noteq> [])"

definition group_at :: "nat \<Rightarrow> regex \<Rightarrow> string \<Rightarrow> string \<Rightarrow> string option" where
  "group_at g r p q = (case ms True r (rev p, q, []) of [] \<Rightarrow> None | st # _ \<Rightarrow> map_of (snd (snd st)) g)"

text \<open>
  The two sets of the name pattern as \<open>re.IGNORECASE\<close> matches them, and the shape of a
  name: a word of one character of the first set and one or more of the second, followed
  by one to three more such words, each after a run of whitespace.
\<close>

definition initial :: "char \<Rightarrow> bool" where
  "initial c = set_match True [Rng (CHR ''A'') (CHR ''Z''), Rng (CHR 0xC0) (CHR 0xDA)] c"

definition letter :: "char \<Rightarrow> bool" where
  "letter c = set_match True [Rng (CHR ''a'') (CHR ''z''), Rng (CHR 0xE0) (CHR 0xFA)] c"

fun name_word :: "string \<Rightarrow> bool" where
  "name_word [] = False"
| "name_word (c # cs) = (initial c \<and> cs \<noteq> [] \<and> list_all letter cs)"

definition name_shape :: "string \<Rightarrow> bool" where
  "name_shape n =
     (\<exists>w blocks. n = w @ concat blocks \<and> name_word w \<and> 1 \<le> length blocks \<and> length blocks \<le> 3
        \<and> (\<forall>b \<in> set blocks. \<exists>sp v. b = sp @ v \<and> sp \<noteq> [] \<and> list_all is_space sp \<and> name_word v))"

section \<open>Sample data\<close>

text \<open>\<open>KEEP_COLUMNS\<close> of scraper.py and \<open>_EMPTY_ROW\<close> of extra_scrapers.py (the two recruiter
  columns, which the adapters do not set, are \<open>None\<close>), and a frame of three postings that
  share one link.\<close>

definition KEEP_COLUMNS :: "string list" where
  "KEEP_COLUMNS =
     [''site'', ''titulo'', ''empresa'', ''localizacao'', ''remoto'', ''tipo_vaga'',
      ''salario_min'', ''salario_max'', ''moeda'', ''data_postagem'', ''link'', ''emails'',
      ''descricao'']"

definition EMPTY_ROW :: posting where
  "EMPTY_ROW =
     \<lparr>site = TNone, titulo = TNone, empresa = TNone, localizacao = TNone,
      remoto = FBool False, tipo_vaga = TNone, salario_min = NNone, salario_max = NNone,
      moeda = TNone, data_postagem = TNone, link = TNone, emails = TNone, descricao = TNone,
      email_recrutador = TNone, nome_recrutador = TNone\<rparr>"

definition demo_rows :: "posting list" where
  "demo_rows =
     [EMPTY_ROW\<lparr>site := TStr ''gupy'', link := TStr ''https://a.example/job/1'',
                titulo := TStr ''Dev Python'', remoto := FBool True\<rparr>,
      EMPTY_ROW\<lparr>site := TStr ''post_linkedin'', link := TStr ''https://a.example/job/1'',
                titulo := TStr ''Vaga Java''\<rparr>,
      EMPTY_ROW\<lparr>site := TStr ''remoteok'', link := TStr ''https://a.example/job/1'',
                titulo := TStr ''Python again'', remoto := FBool True\<rparr>]"

definition demo :: dataframe where
  "demo = \<lparr>columns = KEEP_COLUMNS, rows = demo_rows\<rparr>"

text \<open>A frame of two postings without a link (the empty string a post without \<open>href\<close> gets,
  and the \<open>None\<close> of \<open>_EMPTY_ROW\<close>), a frame with negative salaries, two frames in which
  the first posting has a salary that is an int too large for a float, the postings with
  links in one and without in the other, and a reader of floats that reads no string.\<close>

definition no_parse :: "string \<Rightarrow> pyfloat option" where
  "no_parse s = None"


definition underpaid :: dataframe where
  "underpaid =
     \<lparr>columns = KEEP_COLUMNS,
      rows = [EMPTY_ROW\<lparr>site := TStr ''remoteok'', link := TStr ''https://a.example/job/2'',
                        salario_min := NFloat (Finite (- 5000)),
                        salario_max := NFloat (Finite (- 9000))\<rparr>]\<rparr>"

definition oversized :: dataframe where
  "oversized =
     \<lparr>columns = KEEP_COLUMNS,
      rows = [EMPTY_ROW\<lparr>site := TStr ''remoteok'', link := TStr ''https://a.example/job/8'',
                        salario_min := NInt (10 ^ 309)\<rparr>,
              EMPTY_ROW\<lparr>site := TStr ''remoteok'', link := TStr ''https://a.example/job/9'',
                        salario_min := NInt 5000\<rparr>]\<rparr>"


text \<open>Postings with a hint of one blank, a hint that reads \<open>nan\<close>, no hint, and a plain
  hint.\<close>

definition hints :: dataframe where
  "hints =
     \<lparr>columns = KEEP_COLUMNS,
      rows = [EMPTY_ROW\<lparr>link := TStr ''https://a.example/job/3'', emails := TStr '' '',
                        descricao := TStr ''Fale com jane@acme.com''\<rparr>,
              EMPTY_ROW\<lparr>link := TStr ''https://a.example/job/4'', emails := TStr ''nan'',
                        descricao := TStr ''Fale com jane@acme.com''\<rparr>,
              EMPTY_ROW\<lparr>link := TStr ''https://a.example/job/5'',
                        descricao := TStr ''img logo@cdn.example.png mail jane@acme.com''\<rparr>,
              EMPTY_ROW\<lparr>link := TStr ''https://a.example/job/6'', emails := TStr ''hr@acme.com'',
                        descricao := TStr ''Fale com jane@acme.com''\<rparr>]\<rparr>"

text \<open>A frame of one posting titled \<open>Python dev\<close>, without a description.\<close>

definition padded :: dataframe where
  "padded =
     \<lparr>columns = KEEP_COLUMNS,
      rows = [EMPTY_ROW\<lparr>link := TStr ''https://a.example/job/7'', titulo := TStr ''Python dev''\<rparr>]\<rparr>"

section \<open>The filter pipeline narrows\<close>

lemma subseq_imp_mset_subseteq: "subseq xs ys \<Longrightarrow> mset xs \<subseteq># mset ys"
proof (induction rule: list_emb.induct)
  case (list_emb_Nil ys)
  then show ?case by simp
next
  case (list_emb_Cons xs ys y)
  have "mset ys \<subseteq># add_mset y (mset ys)" by simp
  with list_emb_Cons.IH show ?case by (simp add: subset_mset.order_trans)
next
  case (list_emb_Cons2 x y xs ys)
  then show ?case by simp
qed

lemma subseq_drop_seen: "subseq (drop_seen seen rs) rs"
  by (induction rs arbitrary: seen) auto

lemma subseq_drop_duplicates: "subseq (drop_duplicates rs) rs"
  by (simp add: drop_duplicates_def subseq_drop_seen)

lemma subseq_deduplicate: "subseq (rows (deduplicate df)) (rows df)"
  by (simp add: deduplicate_def subseq_drop_duplicates)

lemma subseq_filter_remote: "subseq (rows (filter_remote df)) (rows df)"
  by (simp add: filter_remote_def)

lemma subseq_filter_by_skills: "subseq (rows (filter_by_skills df ks)) (rows df)"
  by (simp add: filter_by_skills_def Let_def)

lemma subseq_filter_by_seniority: "subseq (rows (filter_by_seniority df ls)) (rows df)"
  by (simp add: filter_by_seniority_def Let_def)

lemma rows_dedup_step_site:
  "''site'' \<in> set (columns df) \<Longrightarrow>
   rows (dedup_step df) =
     rows (deduplicate (df\<lparr>rows := filter (\<lambda>r. \<not> is_post r) (rows df)\<rparr>))
     @ rows (deduplicate (df\<lparr>rows := filter is_post (rows df)\<rparr>))"
  by (simp add: dedup_step_def Let_def)

lemma mset_dedup_step: "mset (rows (dedup_step df)) \<subseteq># mset (rows df)"
proof (cases "''site'' \<in> set (columns df)")
  case True
  let ?j = "df\<lparr>rows := filter (\<lambda>r. \<not> is_post r) (rows df)\<rparr>"
  let ?p = "df\<lparr>rows := filter is_post (rows df)\<rparr>"
  have j: "mset (rows (deduplicate ?j)) \<subseteq># mset (filter (\<lambda>r. \<not> is_post r) (rows df))"
    using subseq_imp_mset_subseteq [OF subseq_deduplicate [of ?j]] by simp
  have p: "mset (rows (deduplicate ?p)) \<subseteq># mset (filter is_post (rows df))"
    using subseq_imp_mset_subseteq [OF subseq_deduplicate [of ?p]] by simp
  have "mset (filter (\<lambda>r. \<not> is_post r) (rows df)) + mset (filter is_post (rows df)) = mset (rows df)"
    by (induction "rows df") auto
  then show ?thesis
    using j p subset_mset.add_mono [OF j p] by (simp add: rows_dedup_step_site [OF True])
next
  case False
  then show ?thesis
    using subseq_imp_mset_subseteq [OF subseq_deduplicate [of df]] by (simp add: dedup_step_def)
qed

lemma subseq_remote_step: "subseq (rows (remote_step b df)) (rows df)"
  by (simp add: remote_step_def subseq_filter_remote)

lemma subseq_skills_step: "subseq (rows (skills_step skills df)) (rows df)"
  by (simp add: skills_step_def subseq_filter_by_skills split: option.splits)

lemma subseq_seniority_step: "subseq (rows (seniority_step seniority df)) (rows df)"
  by (simp add: seniority_step_def subseq_filter_by_seniority split: option.splits)

lemma mset_apply_all_filters:
  "mset (rows (apply_all_filters df skills remote_only seniority)) \<subseteq># mset (rows df)"
proof -
  let ?d1 = "dedup_step df"
  let ?d2 = "remote_step remote_only ?d1"
  let ?d3 = "skills_step skills ?d2"
  have "subseq (rows (seniority_step seniority ?d3)) (rows ?d1)"
    using subseq_seniority_step [of seniority ?d3] subseq_skills_step [of skills ?d2]
      subseq_remote_step [of remote_only ?d1]
    by (meson subseq_order.order_trans)
  then have "mset (rows (seniority_step seniority ?d3)) \<subseteq># mset (rows ?d1)"
    by (rule subseq_imp_mset_subseteq)
  then show ?thesis
    using mset_dedup_step [of df] by (simp add: apply_all_filters_def subset_mset.order_trans)
qed

text \<open>
  Claim C8. Every stage of the filter pipeline returns rows of its input: \<open>deduplicate\<close>,
  \<open>filter_remote\<close>, \<open>filter_by_skills\<close> and \<open>filter_by_seniority\<close>, and the optional steps
  built on them, return a subsequence of the rows they are given; the partitioned
  deduplication and the whole of \<open>apply_all_filters\<close> return a sub-multiset of them (the job
  boards are put before the posts), so no stage and no composition of stages has more rows
  than its input. A step whose option is off, \<open>None\<close> or empty returns its input unchanged.
\<close>

theorem filter_stages_narrow:
  "subseq (rows (deduplicate df)) (rows df)
   \<and> subseq (rows (filter_remote df)) (rows df)
   \<and> subseq (rows (filter_by_skills df ks)) (rows df)
   \<and> subseq (rows (filter_by_seniority df ls)) (rows df)
   \<and> subseq (rows (remote_step remote_only df)) (rows df)
   \<and> subseq (rows (skills_step skills df)) (rows df)
   \<and> subseq (rows (seniority_step seniority df)) (rows df)
   \<and> mset (rows (dedup_step df)) \<subseteq># mset (rows df)
   \<and> mset (rows (apply_all_filters df skills remote_only seniority)) \<subseteq># mset (rows df)
   \<and> length (rows (dedup_step df)) \<le> length (rows df)
   \<and> length (rows (apply_all_filters df skills remote_only seniority)) \<le> length (rows df)
   \<and> remote_step False df = df
   \<and> skills_step None df = df \<and> skills_step (Some []) df = df
   \<and> seniority_step None df = df \<and> seniority_step (Some []) df = df
   \<and> apply_all_filters df None False None = dedup_step df"
proof -
  have a: "length (rows (dedup_step df)) \<le> length (rows df)"
    using mset_dedup_step [of df] by (metis size_mset size_mset_mono)
  have b: "length (rows (apply_all_filters df skills remote_only seniority)) \<le> length (rows df)"
    using mset_apply_all_filters [of df skills remote_only seniority]
    by (metis size_mset size_mset_mono)
  have c: "remote_step False df = df" "skills_step None df = df" "skills_step (Some []) df = df"
    "seniority_step None df = df" "seniority_step (Some []) df = df"
    by (simp_all add: remote_step_def skills_step_def seniority_step_def)
  have d: "apply_all_filters df None False None = dedup_step df"
    by (simp add: apply_all_filters_def remote_step_def skills_step_def seniority_step_def)
  show ?thesis
    using a b c d subseq_deduplicate subseq_filter_remote subseq_filter_by_skills
      subseq_filter_by_seniority subseq_remote_step subseq_skills_step subseq_seniority_step
      mset_dedup_step mset_apply_all_filters
    by simp
qed


theorem filter_stages_narrow_witness:
  "map titulo (rows (apply_all_filters demo (Some [''python'']) True None)) = [TStr ''Dev Python'']
   \<and> length (rows (apply_all_filters demo (Some [''python'']) True None)) \<le> length (rows demo)
   \<and> apply_all_filters demo None False None = dedup_step demo"
proof -
  have "map titulo (rows (apply_all_filters demo (Some [''python'']) True None)) = [TStr ''Dev Python'']"
    by code_simp
  then show ?thesis
    using filter_stages_narrow [of demo "[]" "[]" True "Some [''python'']" None] 
      filter_stages_narrow [of demo "[]" "[]" False None None] by simp
qed

lemma keywords_of_unknown:
  "l \<notin> {''trainee'', ''junior'', ''pleno'', ''senior''} \<Longrightarrow> keywords_of l = []"
  by (simp add: keywords_of_def SENIORITY_KEYWORDS_def)

text \<open>
  Claim C10. When the list of requested levels is not empty and none of its tags is a key
  of \<open>SENIORITY_KEYWORDS\<close> (trainee, junior, pleno, senior), the tags contribute no
  patterns and \<open>filter_by_seniority\<close> returns the frame it was given, rows and columns
  unchanged.
\<close>

theorem seniority_unknown_levels:
  assumes "levels \<noteq> []"
    and "\<forall>l \<in> set levels. l \<notin> {''trainee'', ''junior'', ''pleno'', ''senior''}"
  shows "filter_by_seniority df levels = df
         \<and> concat (map keywords_of levels) = []
         \<and> (\<forall>l \<in> set levels. keywords_of l = [])"
proof -
  have k: "\<forall>l \<in> set levels. keywords_of l = []"
    using assms(2) keywords_of_unknown by blast
  then have "concat (map keywords_of levels) = []"
    by simp
  then show ?thesis
    using k by (simp add: filter_by_seniority_def)
qed

theorem seniority_unknown_levels_witness:
  "[''Senior'', ''expert''] \<noteq> []
   \<and> filter_by_seniority demo [''Senior'', ''expert''] = demo
   \<and> keywords_of ''Senior'' = []"
  using seniority_unknown_levels [of "[''Senior'', ''expert'']" demo] by simp

section \<open>Deduplication\<close>









section \<open>Persistence\<close>

lemma bit_length_bounds:
  "0 < m \<Longrightarrow> 2 ^ (bit_length m - 1) \<le> m \<and> m < 2 ^ bit_length m"
proof (induction m rule: bit_length.induct)
  case (1 m)
  have b: "bit_length m = Suc (bit_length (m div 2))"
    using "1.prems" by (subst bit_length.simps) simp
  show ?case
  proof (cases "m div 2 = 0")
    case True
    then have "m = 1"
      using "1.prems" by presburger
    then show ?thesis
      using b True by (simp add: bit_length.simps [of 0])
  next
    case False
    then have pos: "0 < m div 2"
      using "1.prems" by presburger
    then have ih: "2 ^ (bit_length (m div 2) - 1) \<le> m div 2" "m div 2 < 2 ^ bit_length (m div 2)"
      using "1.IH" "1.prems" by simp_all
    have nz: "bit_length (m div 2) \<noteq> 0"
      using pos by (subst bit_length.simps) simp
    then obtain k where k: "bit_length (m div 2) = Suc k"
      by (cases "bit_length (m div 2)") simp_all
    have "2 * 2 ^ k \<le> 2 * (m div 2)" "2 * (m div 2) + 2 \<le> 2 * (2 * 2 ^ k)"
      using ih k by simp_all
    moreover have "2 * (m div 2) \<le> m" "m < 2 * (m div 2) + 2"
      by presburger+
    ultimately show ?thesis
      using b k by simp
  qed
qed

lemma bit_length_le: "m < 2 ^ k \<Longrightarrow> bit_length m \<le> k"
proof (cases "0 < m")
  case True
  assume "m < 2 ^ k"
  then have "(2::int) ^ (bit_length m - 1) < 2 ^ k"
    using bit_length_bounds [OF True] by linarith
  then have "bit_length m - 1 < k"
    by simp
  then show ?thesis
    by simp
next
  case False
  then show ?thesis
    by (subst bit_length.simps) simp
qed

lemma bit_length_gt: "2 ^ k \<le> m \<Longrightarrow> k < bit_length m"
proof -
  assume a: "2 ^ k \<le> m"
  moreover have "(0::int) < 2 ^ k"
    by simp
  ultimately have "0 < m"
    by linarith
  then have "m < 2 ^ bit_length m"
    using bit_length_bounds by simp
  then have "(2::int) ^ k < 2 ^ bit_length m"
    using a by linarith
  then show ?thesis
    by simp
qed

lemma round_half_even_0: "round_half_even m 0 = m"
  by (simp add: round_half_even_def)

lemma round_half_even_cases:
  "round_half_even m e = m div 2 ^ e \<or> round_half_even m e = m div 2 ^ e + 1"
  by (simp add: round_half_even_def Let_def)

lemma int_to_float_small:
  assumes "\<bar>n\<bar> < 2 ^ 53"
  shows "int_to_float n = Inr (Finite (of_int n))"
proof -
  have "bit_length \<bar>n\<bar> \<le> 53"
    using assms by (rule bit_length_le)
  then have e: "bit_length \<bar>n\<bar> - 53 = 0"
    by simp
  have "\<bar>n\<bar> < 2 ^ 1024"
    using assms by (rule less_trans) simp
  moreover have "sgn n * \<bar>n\<bar> = n"
    by (simp add: mult.commute abs_sgn)
  ultimately show ?thesis
    by (simp add: int_to_float_def e round_half_even_0)
qed

lemma div_less_of_less_mult:
  fixes a b c :: int
  assumes "0 < b" "a < c * b"
  shows "a div b < c"
proof -
  have "a div b * b + a mod b = a"
    by simp
  moreover have "0 \<le> a mod b"
    using assms(1) by simp
  ultimately have "a div b * b < c * b"
    using assms(2) by linarith
  then show ?thesis
    using assms(1) by (simp add: mult_less_cancel_right)
qed

lemma round_half_even_upper:
  assumes "0 \<le> m" "m < 2 ^ b" "e \<le> b"
  shows "round_half_even m e * 2 ^ e \<le> 2 ^ b"
proof -
  have p: "(2::int) ^ b = 2 ^ (b - e) * 2 ^ e"
    using assms(3) by (simp flip: power_add)
  have "m div 2 ^ e < 2 ^ (b - e)"
    using assms(2) unfolding p by (intro div_less_of_less_mult) simp_all
  then have "round_half_even m e \<le> 2 ^ (b - e)"
    using round_half_even_cases [of m e] by auto
  then have "round_half_even m e * 2 ^ e \<le> 2 ^ (b - e) * 2 ^ e"
    by (rule mult_right_mono) simp
  then show ?thesis
    unfolding p .
qed

lemma round_half_even_lower:
  assumes "2 ^ k \<le> m" "e \<le> k"
  shows "2 ^ k \<le> round_half_even m e * 2 ^ e"
proof -
  have p: "(2::int) ^ k = 2 ^ (k - e) * 2 ^ e"
    using assms(2) by (simp flip: power_add)
  have "2 ^ (k - e) * 2 ^ e div 2 ^ e \<le> m div 2 ^ e"
    using assms(1) unfolding p by (rule zdiv_mono1) simp
  then have "2 ^ (k - e) \<le> m div 2 ^ e"
    by simp
  then have "2 ^ (k - e) \<le> round_half_even m e"
    using round_half_even_cases [of m e] by auto
  then have "2 ^ (k - e) * 2 ^ e \<le> round_half_even m e * 2 ^ e"
    by (rule mult_right_mono) simp
  then show ?thesis
    unfolding p .
qed

lemma round_half_even_top:
  fixes P :: int
  assumes P: "P = 2 ^ 971" and lo: "2 ^ 1023 \<le> m" and hi: "m < 2 ^ 1024"
  shows "2 ^ 1024 \<le> round_half_even m 971 * 2 ^ 971 \<longleftrightarrow> 2 ^ 1024 - 2 ^ 970 \<le> m"
proof -
  define H :: int where "H = 2 ^ 970"
  define M :: int where "M = 2 ^ 53"
  have PH: "P = 2 * H"
    by (simp add: P H_def)
  have Hpos: "0 < H"
    by (simp add: H_def)
  have top: "(2::int) ^ 1024 = M * P"
    by (simp add: P M_def flip: power_add)
  have Modd: "odd (M - 1)"
    by (simp add: M_def)
  define q where "q = m div P"
  define r where "r = m mod P"
  have m: "m = q * P + r"
    by (simp add: q_def r_def)
  have r: "0 \<le> r" "r < P"
    using Hpos PH by (simp_all add: r_def)
  have qM: "q < M"
    unfolding q_def using hi Hpos PH unfolding top by (intro div_less_of_less_mult) simp_all
  have rhe: "round_half_even m 971 = (if P < 2 * r \<or> (2 * r = P \<and> odd q) then q + 1 else q)"
    by (simp add: round_half_even_def Let_def q_def r_def P)
  have x: "2 ^ 1024 \<le> round_half_even m 971 * 2 ^ 971 \<longleftrightarrow> M \<le> round_half_even m 971"
    unfolding top P [symmetric] using Hpos PH by simp
  have T: "(2::int) ^ 1024 - 2 ^ 970 = (M - 1) * P + H"
    unfolding top H_def [symmetric] PH by (simp add: algebra_simps)
  show ?thesis
  proof
    assume "2 ^ 1024 \<le> round_half_even m 971 * 2 ^ 971"
    then have "M \<le> round_half_even m 971"
      using x by simp
    then have up: "P < 2 * r \<or> (2 * r = P \<and> odd q)" and q: "q = M - 1"
      using qM unfolding rhe by (auto split: if_splits)
    have "H \<le> r"
      using up PH by auto
    then show "2 ^ 1024 - 2 ^ 970 \<le> m"
      unfolding T m q by simp
  next
    assume "2 ^ 1024 - 2 ^ 970 \<le> m"
    then have ge: "(M - 1) * P + H \<le> m"
      unfolding T .
    have "(M - 1) * P \<le> m"
      using ge Hpos by simp
    then have "(M - 1) * P div P \<le> m div P"
      by (rule zdiv_mono1) (use Hpos PH in simp)
    then have "M - 1 \<le> q"
      using Hpos PH by (simp add: q_def)
    then have q: "q = M - 1"
      using qM by simp
    have "H \<le> r"
      using ge unfolding m q by simp
    then have "P < 2 * r \<or> (2 * r = P \<and> odd q)"
      using Modd PH q by auto
    then have "round_half_even m 971 = M"
      unfolding rhe using q by simp
    then show "2 ^ 1024 \<le> round_half_even m 971 * 2 ^ 971"
      using x by simp
  qed
qed

lemma int_to_float_raises:
  "isl (int_to_float n) \<longleftrightarrow> 2 ^ 1024 - 2 ^ 970 \<le> \<bar>n\<bar>"
proof -
  define m where "m = \<bar>n\<bar>"
  define b where "b = bit_length m"
  have m0: "0 \<le> m"
    by (simp add: m_def)
  have isl: "isl (int_to_float n) \<longleftrightarrow> 2 ^ 1024 \<le> round_half_even m (b - 53) * 2 ^ (b - 53)"
    by (simp add: int_to_float_def Let_def m_def b_def)
  consider "b \<le> 1023" | "b = 1024" | "1025 \<le> b"
    by linarith
  then have "2 ^ 1024 \<le> round_half_even m (b - 53) * 2 ^ (b - 53) \<longleftrightarrow> 2 ^ 1024 - 2 ^ 970 \<le> m"
  proof cases
    case 1
    have "\<not> 2 ^ 1023 \<le> m"
      using bit_length_gt [of 1023 m] 1 by (auto simp: b_def)
    then have lt: "m < 2 ^ 1023"
      by simp
    have "(2::int) ^ b \<le> 2 ^ 1023"
      using 1 by (intro power_increasing) simp_all
    moreover have "m < 2 ^ b"
    proof (cases "0 < m")
      case True
      then show ?thesis
        using bit_length_bounds [of m] by (simp add: b_def)
    next
      case False
      then have "m \<le> 0" by simp
      also have "(0::int) < 2 ^ b" by simp
      finally show ?thesis .
    qed
    ultimately have "round_half_even m (b - 53) * 2 ^ (b - 53) \<le> 2 ^ 1023"
      using round_half_even_upper [of m b "b - 53"] m0 by simp
    moreover have "(2::int) ^ 1023 < 2 ^ 1024" "(2::int) ^ 1023 \<le> 2 ^ 1024 - 2 ^ 970"
      by simp_all
    ultimately show ?thesis
      using lt by linarith
  next
    case 2
    have "2 ^ 1023 \<le> m" "m < 2 ^ 1024"
    proof -
      have "0 < m"
      proof (rule ccontr)
        assume "\<not> 0 < m"
        then have "bit_length m = 0"
          by (subst bit_length.simps) simp
        then show False
          using 2 by (simp add: b_def)
      qed
      then show "2 ^ 1023 \<le> m" "m < 2 ^ 1024"
        using bit_length_bounds [of m] 2 by (simp_all add: b_def)
    qed
    then show ?thesis
      using 2 round_half_even_top [of "2 ^ 971" m] by simp
  next
    case 3
    have "\<not> m < 2 ^ 1024"
      using bit_length_le [of m 1024] 3 by (auto simp: b_def)
    then have ge: "2 ^ 1024 \<le> m"
      by simp
    then have "2 ^ 1024 \<le> round_half_even m (b - 53) * 2 ^ (b - 53)"
    proof -
      have "(0::int) < 2 ^ 1024"
        by simp
      then have "0 < m"
        using ge by linarith
      then have "2 ^ (b - 1) \<le> m"
        using bit_length_bounds [of m] by (simp add: b_def)
      then have "2 ^ (b - 1) \<le> round_half_even m (b - 53) * 2 ^ (b - 53)"
        by (rule round_half_even_lower) (use 3 in simp)
      moreover have "(2::int) ^ 1024 \<le> 2 ^ (b - 1)"
        using 3 by (intro power_increasing) simp_all
      ultimately show ?thesis
        by linarith
    qed
    moreover have "(2::int) ^ 1024 - 2 ^ 970 \<le> 2 ^ 1024"
      by simp
    ultimately show ?thesis
      using ge by linarith
  qed
  then show ?thesis
    using isl by (simp add: m_def)
qed

lemma int_to_float_exc: "int_to_float n = Inl e \<Longrightarrow> e = OverflowError"
  by (simp add: int_to_float_def Let_def split: if_splits)

lemma db_float_raises: "isl (db_float parse val) \<longleftrightarrow> too_large val"
proof (cases val)
  case (NInt n)
  show ?thesis
  proof (cases "int_to_float n")
    case (Inl e)
    then have "e = OverflowError"
      by (rule int_to_float_exc)
    then show ?thesis
      using Inl int_to_float_raises [of n] by (simp add: NInt db_float_def too_large_def)
  next
    case (Inr f)
    then show ?thesis
      using int_to_float_raises [of n] by (simp add: NInt db_float_def too_large_def)
  qed
qed (simp_all add: db_float_def too_large_def split: option.splits)

lemma row_values_raises:
  "isl (row_values parse df term coleta r)
     \<longleftrightarrow> too_large (get_num df ''salario_min'' salario_min r)
         \<or> too_large (get_num df ''salario_max'' salario_max r)"
proof -
  let ?lo = "db_float parse (get_num df ''salario_min'' salario_min r)"
  let ?hi = "db_float parse (get_num df ''salario_max'' salario_max r)"
  have "isl (row_values parse df term coleta r) \<longleftrightarrow> isl ?lo \<or> isl ?hi"
    by (cases ?lo; cases ?hi) (simp_all add: row_values_def)
  then show ?thesis
    by (simp add: db_float_raises)
qed

lemma isl_row_values: "isl (row_values parse df term coleta r) = skipped parse df r"
  by (simp add: skipped_def row_values_raises)

lemma v_link_projr:
  "\<not> isl (row_values parse df term coleta r) \<Longrightarrow>
   v_link (projr (row_values parse df term coleta r)) = link_param df r"
  by (cases "db_float parse (get_num df ''salario_min'' salario_min r)";
      cases "db_float parse (get_num df ''salario_max'' salario_max r)")
     (simp_all add: row_values_def link_param_def)

lemma v_link_row_values:
  assumes "row_values parse df term coleta r = Inr v"
  shows "v_link v = link_param df r"
  using v_link_projr [of parse df "term" coleta r] assms by simp

lemma row_values_rows_update [simp]:
  "row_values parse (df\<lparr>rows := rs\<rparr>) = row_values parse df"
  by (intro ext) (simp add: row_values_def get_text_def get_num_def remoto_int_def cong: sum.case_cong)

lemma link_param_rows_update [simp]: "link_param (df\<lparr>rows := rs\<rparr>) = link_param df"
  by (intro ext) (simp add: link_param_def get_text_def)

lemma skipped_rows_update [simp]: "skipped parse (df\<lparr>rows := rs\<rparr>) = skipped parse df"
  by (intro ext) (simp only: skipped_def row_values_rows_update)




lemma save_rows_from:
  "set (snd (save_rows vals tbl n rs)) \<subseteq> set tbl \<union> {v. \<exists>r \<in> set rs. vals r = Inr v}"
proof (induction rs arbitrary: tbl n)
  case Nil
  then show ?case by simp
next
  case (Cons r rs)
  show ?case
  proof (cases "vals r")
    case (Inl e)
    then show ?thesis
      using Cons.IH [of tbl n] by auto
  next
    case (Inr v)
    then show ?thesis
      using Cons.IH [of "tbl @ [v]" "Suc n"] Cons.IH [of tbl n]
      by (auto simp: insert_or_ignore_def)
  qed
qed

lemma save_rows_keeps: "set tbl \<subseteq> set (snd (save_rows vals tbl n rs))"
proof (induction rs arbitrary: tbl n)
  case Nil
  then show ?case by simp
next
  case (Cons r rs)
  show ?case
  proof (cases "vals r")
    case (Inl e)
    then show ?thesis
      using Cons.IH [of tbl n] by simp
  next
    case (Inr v)
    then show ?thesis
      using Cons.IH [of "tbl @ [v]" "Suc n"] Cons.IH [of tbl n]
      by (auto simp: insert_or_ignore_def)
  qed
qed


lemma save_rows_stores:
  assumes "vals r = Inr v" "r \<in> set rs"
    and "v_link v = None
         \<or> (\<forall>t \<in> set tbl. v_link t = v_link v \<longrightarrow> t = v)
           \<and> (\<forall>r' \<in> set rs. \<forall>v'. vals r' = Inr v' \<longrightarrow> v_link v' = v_link v \<longrightarrow> v' = v)"
  shows "v \<in> set (snd (save_rows vals tbl n rs))"
  using assms(2,3)
proof (induction rs arbitrary: tbl n)
  case Nil
  then show ?case by simp
next
  case (Cons r0 rs)
  show ?case
  proof (cases "vals r0")
    case (Inl e)
    then have "r \<in> set rs"
      using Cons.prems(1) assms(1) by auto
    moreover have "v_link v = None
         \<or> (\<forall>t \<in> set tbl. v_link t = v_link v \<longrightarrow> t = v)
           \<and> (\<forall>r' \<in> set rs. \<forall>v'. vals r' = Inr v' \<longrightarrow> v_link v' = v_link v \<longrightarrow> v' = v)"
      using Cons.prems(2) by auto
    ultimately show ?thesis
      using Inl Cons.IH [of tbl n] by simp
  next
    case (Inr v0)
    show ?thesis
    proof (cases "v_link v0 \<noteq> None \<and> v_link v0 \<in> v_link ` set tbl")
      case True
      then have step: "save_rows vals tbl n (r0 # rs) = save_rows vals tbl n rs"
        using Inr by (simp add: insert_or_ignore_def)
      show ?thesis
      proof (cases "r = r0")
        case same: True
        then have "v0 = v"
          using Inr assms(1) by simp
        then obtain t where "t \<in> set tbl" "v_link t = v_link v" "v_link v \<noteq> None"
          using True by auto
        then have "v \<in> set tbl"
          using Cons.prems(2) by auto
        then show ?thesis
          unfolding step using save_rows_keeps [of tbl vals n rs] by auto
      next
        case False
        then have "r \<in> set rs"
          using Cons.prems(1) by simp
        moreover have "v_link v = None
           \<or> (\<forall>t \<in> set tbl. v_link t = v_link v \<longrightarrow> t = v)
             \<and> (\<forall>r' \<in> set rs. \<forall>v'. vals r' = Inr v' \<longrightarrow> v_link v' = v_link v \<longrightarrow> v' = v)"
          using Cons.prems(2) by auto
        ultimately show ?thesis
          unfolding step by (rule Cons.IH)
      qed
    next
      case False
      then have step: "save_rows vals tbl n (r0 # rs) = save_rows vals (tbl @ [v0]) (n + 1) rs"
        using Inr by (auto simp: insert_or_ignore_def)
      show ?thesis
      proof (cases "r = r0")
        case True
        then have "v0 = v"
          using Inr assms(1) by simp
        then show ?thesis
          unfolding step using save_rows_keeps [of "tbl @ [v0]" vals "n + 1" rs] by auto
      next
        case ne: False
        then have "r \<in> set rs"
          using Cons.prems(1) by simp
        moreover have "v_link v = None
           \<or> (\<forall>t \<in> set (tbl @ [v0]). v_link t = v_link v \<longrightarrow> t = v)
             \<and> (\<forall>r' \<in> set rs. \<forall>v'. vals r' = Inr v' \<longrightarrow> v_link v' = v_link v \<longrightarrow> v' = v)"
          using Cons.prems(2) Inr by auto
        ultimately show ?thesis
          unfolding step by (rule Cons.IH)
      qed
    qed
  qed
qed









lemma int_to_float_finite: "int_to_float n = Inr f \<Longrightarrow> \<exists>x. f = Finite x"
  by (auto simp: int_to_float_def Let_def split: if_splits)

lemma stored_cases:
  assumes "db_float parse cell = Inr lo" and "stored = bind_real lo"
  shows "(\<forall>f. cell = NFloat f \<and> f \<noteq> NaN \<longrightarrow> stored = Some f)
       \<and> (\<forall>s f. cell = NStr s \<and> parse s = Some f \<and> f \<noteq> NaN \<longrightarrow> stored = Some f)
       \<and> (\<forall>n f. cell = NInt n \<and> int_to_float n = Inr f \<longrightarrow> stored = Some f)
       \<and> (\<forall>n. cell = NInt n \<and> \<bar>n\<bar> < 2 ^ 53 \<longrightarrow> stored = Some (Finite (of_int n)))
       \<and> (stored = None
            \<longleftrightarrow> cell = NNone \<or> cell = NFloat NaN
                \<or> (\<exists>s. cell = NStr s \<and> (parse s = None \<or> parse s = Some NaN)))
       \<and> stored \<noteq> Some NaN"
proof (cases cell)
  case NNone
  then show ?thesis
    using assms by (auto simp: db_float_def bind_real_def)
next
  case (NFloat f)
  then show ?thesis
    using assms by (auto simp: db_float_def bind_real_def)
next
  case (NInt n)
  show ?thesis
  proof (cases "int_to_float n")
    case (Inl e)
    then have "e = OverflowError"
      by (rule int_to_float_exc)
    then show ?thesis
      using assms Inl NInt by (simp add: db_float_def)
  next
    case (Inr f)
    then obtain x where x: "f = Finite x"
      using int_to_float_finite by blast
    have "\<bar>n\<bar> < 2 ^ 53 \<Longrightarrow> f = Finite (of_int n)"
      using int_to_float_small [of n] Inr by simp
    then show ?thesis
      using assms Inr NInt x by (auto simp: db_float_def bind_real_def)
  qed
next
  case (NStr s)
  then show ?thesis
    using assms by (cases "parse s") (auto simp: db_float_def bind_real_def)
qed

lemma row_values_salaries:
  assumes "row_values parse df term coleta r = Inr v"
  shows "\<exists>lo hi. db_float parse (get_num df ''salario_min'' salario_min r) = Inr lo
           \<and> db_float parse (get_num df ''salario_max'' salario_max r) = Inr hi
           \<and> v_salario_min v = bind_real lo \<and> v_salario_max v = bind_real hi"
  using assms
  by (cases "db_float parse (get_num df ''salario_min'' salario_min r)";
      cases "db_float parse (get_num df ''salario_max'' salario_max r)")
     (auto simp: row_values_def)

text \<open>
  Claim C5, as the program has it. Nothing checks the sign of a salary. A posting is
  skipped exactly when one of its two salary cells is an int too large for a float.
  Otherwise each salary field of its row is what \<open>float\<close> makes of the cell, whatever its
  sign: the float itself, infinite or not, the number a string is read as, the int as a
  float (itself when it has at most 53 bits); it is NULL exactly when the cell is \<open>None\<close>
  or \<open>nan\<close> or a string that \<open>float\<close> does not read or reads as \<open>nan\<close>. The two fields are
  converted apart, so the maximum may be below the minimum. Every row of the table after
  \<open>save_jobs\<close> was there before or is made this way from a row of the frame, and the row
  made from a posting is in the table when the posting has no link, or has a link that
  the table did not hold and no other posting of the frame has.
\<close>

theorem salary_stored_unchecked:
  "(skipped parse df r
      \<longleftrightarrow> too_large (get_num df ''salario_min'' salario_min r)
          \<or> too_large (get_num df ''salario_max'' salario_max r))
   \<and> (row_values parse df term coleta r = Inr v \<longrightarrow>
        (\<forall>(cell, stored) \<in> {(get_num df ''salario_min'' salario_min r, v_salario_min v),
                              (get_num df ''salario_max'' salario_max r, v_salario_max v)}.
           (\<forall>f. cell = NFloat f \<and> f \<noteq> NaN \<longrightarrow> stored = Some f)
         \<and> (\<forall>s f. cell = NStr s \<and> parse s = Some f \<and> f \<noteq> NaN \<longrightarrow> stored = Some f)
         \<and> (\<forall>n f. cell = NInt n \<and> int_to_float n = Inr f \<longrightarrow> stored = Some f)
         \<and> (\<forall>n. cell = NInt n \<and> \<bar>n\<bar> < 2 ^ 53 \<longrightarrow> stored = Some (Finite (of_int n)))
         \<and> (stored = None
              \<longleftrightarrow> cell = NNone \<or> cell = NFloat NaN
                  \<or> (\<exists>s. cell = NStr s \<and> (parse s = None \<or> parse s = Some NaN)))
         \<and> stored \<noteq> Some NaN))
   \<and> set (snd (save_jobs parse tbl df term coleta))
       \<subseteq> set tbl \<union> {v. \<exists>r \<in> set (rows df). row_values parse df term coleta r = Inr v}
   \<and> (\<not> df_empty df \<and> r \<in> set (rows df) \<and> row_values parse df term coleta r = Inr v
        \<and> (v_link v = None
            \<or> v_link v \<notin> v_link ` set tbl
              \<and> (\<forall>r' \<in> set (rows df). link_param df r' = link_param df r \<longrightarrow> r' = r))
      \<longrightarrow> v \<in> set (snd (save_jobs parse tbl df term coleta)))"
proof -
  let ?vals = "row_values parse df term coleta"
  have A: "skipped parse df r
      \<longleftrightarrow> too_large (get_num df ''salario_min'' salario_min r)
          \<or> too_large (get_num df ''salario_max'' salario_max r)"
    unfolding skipped_def by (rule row_values_raises)
  have B: "\<forall>(cell, stored) \<in> {(get_num df ''salario_min'' salario_min r, v_salario_min v),
                              (get_num df ''salario_max'' salario_max r, v_salario_max v)}.
           (\<forall>f. cell = NFloat f \<and> f \<noteq> NaN \<longrightarrow> stored = Some f)
         \<and> (\<forall>s f. cell = NStr s \<and> parse s = Some f \<and> f \<noteq> NaN \<longrightarrow> stored = Some f)
         \<and> (\<forall>n f. cell = NInt n \<and> int_to_float n = Inr f \<longrightarrow> stored = Some f)
         \<and> (\<forall>n. cell = NInt n \<and> \<bar>n\<bar> < 2 ^ 53 \<longrightarrow> stored = Some (Finite (of_int n)))
         \<and> (stored = None
              \<longleftrightarrow> cell = NNone \<or> cell = NFloat NaN
                  \<or> (\<exists>s. cell = NStr s \<and> (parse s = None \<or> parse s = Some NaN)))
         \<and> stored \<noteq> Some NaN"
    if v: "?vals r = Inr v"
  proof -
    obtain lo hi where
      lo: "db_float parse (get_num df ''salario_min'' salario_min r) = Inr lo"
        "v_salario_min v = bind_real lo"
      and hi: "db_float parse (get_num df ''salario_max'' salario_max r) = Inr hi"
        "v_salario_max v = bind_real hi"
      using row_values_salaries [OF v] by blast
    show ?thesis
    proof (intro ballI)
      fix p
      assume "p \<in> {(get_num df ''salario_min'' salario_min r, v_salario_min v),
                     (get_num df ''salario_max'' salario_max r, v_salario_max v)}"
      then consider "p = (get_num df ''salario_min'' salario_min r, v_salario_min v)"
        | "p = (get_num df ''salario_max'' salario_max r, v_salario_max v)"
        by blast
      then show "case p of (cell, stored) \<Rightarrow>
           (\<forall>f. cell = NFloat f \<and> f \<noteq> NaN \<longrightarrow> stored = Some f)
         \<and> (\<forall>s f. cell = NStr s \<and> parse s = Some f \<and> f \<noteq> NaN \<longrightarrow> stored = Some f)
         \<and> (\<forall>n f. cell = NInt n \<and> int_to_float n = Inr f \<longrightarrow> stored = Some f)
         \<and> (\<forall>n. cell = NInt n \<and> \<bar>n\<bar> < 2 ^ 53 \<longrightarrow> stored = Some (Finite (of_int n)))
         \<and> (stored = None
              \<longleftrightarrow> cell = NNone \<or> cell = NFloat NaN
                  \<or> (\<exists>s. cell = NStr s \<and> (parse s = None \<or> parse s = Some NaN)))
         \<and> stored \<noteq> Some NaN"
      proof cases
        case 1
        show ?thesis
          unfolding 1 prod.case by (rule stored_cases [OF lo])
      next
        case 2
        show ?thesis
          unfolding 2 prod.case by (rule stored_cases [OF hi])
      qed
    qed
  qed
  have C: "set (snd (save_jobs parse tbl df term coleta))
       \<subseteq> set tbl \<union> {v. \<exists>r \<in> set (rows df). ?vals r = Inr v}"
    using save_rows_from [of ?vals tbl 0 "rows df"] by (auto simp: save_jobs_def)
  have D: "v \<in> set (snd (save_jobs parse tbl df term coleta))"
    if ne: "\<not> df_empty df" and r: "r \<in> set (rows df)" and v: "?vals r = Inr v"
      and l: "v_link v = None
            \<or> v_link v \<notin> v_link ` set tbl
              \<and> (\<forall>r' \<in> set (rows df). link_param df r' = link_param df r \<longrightarrow> r' = r)"
  proof -
    have "v_link v = None
         \<or> (\<forall>t \<in> set tbl. v_link t = v_link v \<longrightarrow> t = v)
           \<and> (\<forall>r' \<in> set (rows df). \<forall>v'. ?vals r' = Inr v' \<longrightarrow> v_link v' = v_link v \<longrightarrow> v' = v)"
    proof (cases "v_link v = None")
      case True
      then show ?thesis by simp
    next
      case False
      then have "v_link v \<notin> v_link ` set tbl
          \<and> (\<forall>r' \<in> set (rows df). link_param df r' = link_param df r \<longrightarrow> r' = r)"
        using l by auto
      then have notin: "v_link v \<notin> v_link ` set tbl"
        and only: "\<forall>r' \<in> set (rows df). link_param df r' = link_param df r \<longrightarrow> r' = r"
        by blast+
      have "\<forall>t \<in> set tbl. v_link t = v_link v \<longrightarrow> t = v"
      proof (intro ballI impI)
        fix t
        assume "t \<in> set tbl" "v_link t = v_link v"
        then have "v_link v \<in> v_link ` set tbl"
          by (metis imageI)
        then show "t = v"
          using notin by contradiction
      qed
      moreover have "\<forall>r' \<in> set (rows df). \<forall>v'. ?vals r' = Inr v' \<longrightarrow> v_link v' = v_link v \<longrightarrow> v' = v"
      proof (intro ballI allI impI)
        fix r' v'
        assume r': "r' \<in> set (rows df)" and v': "?vals r' = Inr v'" and e: "v_link v' = v_link v"
        have "link_param df r' = link_param df r"
          using v_link_row_values [OF v'] v_link_row_values [OF v] e by simp
        then have "r' = r"
          using only r' by simp
        then show "v' = v"
          using v v' by simp
      qed
      ultimately show ?thesis
        by simp
    qed
    then have "v \<in> set (snd (save_rows ?vals tbl 0 (rows df)))"
      by (rule save_rows_stores [where vals = ?vals and r = r, OF v r])
    then show ?thesis
      using ne by (simp add: save_jobs_def)
  qed
  show ?thesis
    using A B C D by blast
qed

theorem salary_stored_unchecked_witness:
  "row_values no_parse underpaid ''python'' ''2026-01-01 10:00:00'' (hd (rows underpaid))
     = Inr (projr (row_values no_parse underpaid ''python'' ''2026-01-01 10:00:00'' (hd (rows underpaid))))
   \<and> v_salario_min
         (projr (row_values no_parse underpaid ''python'' ''2026-01-01 10:00:00'' (hd (rows underpaid))))
       = Some (Finite (- 5000))
   \<and> v_salario_max
         (projr (row_values no_parse underpaid ''python'' ''2026-01-01 10:00:00'' (hd (rows underpaid))))
       = Some (Finite (- 9000))
   \<and> projr (row_values no_parse underpaid ''python'' ''2026-01-01 10:00:00'' (hd (rows underpaid)))
       \<in> set (snd (save_jobs no_parse [] underpaid ''python'' ''2026-01-01 10:00:00''))
   \<and> skipped no_parse oversized (hd (rows oversized))"
proof -
  let ?r = "hd (rows underpaid)"
  let ?v = "projr (row_values no_parse underpaid ''python'' ''2026-01-01 10:00:00'' ?r)"
  note inst = salary_stored_unchecked [of no_parse underpaid ?r "''python''" "''2026-01-01 10:00:00''"
      ?v "[]"]
  have cells: "get_num underpaid ''salario_min'' salario_min ?r = NFloat (Finite (- 5000))"
    "get_num underpaid ''salario_max'' salario_max ?r = NFloat (Finite (- 9000))"
    by (simp_all add: underpaid_def KEEP_COLUMNS_def EMPTY_ROW_def get_num_def)
  have "\<not> skipped no_parse underpaid ?r"
    using inst cells by (simp add: too_large_def)
  then have "\<not> isl (row_values no_parse underpaid ''python'' ''2026-01-01 10:00:00'' ?r)"
    by (simp add: isl_row_values)
  then have v: "row_values no_parse underpaid ''python'' ''2026-01-01 10:00:00'' ?r = Inr ?v"
    by simp
  have fields: "v_salario_min ?v = Some (Finite (- 5000))" "v_salario_max ?v = Some (Finite (- 9000))"
    using inst v cells by simp_all
  have "\<not> df_empty underpaid" "?r \<in> set (rows underpaid)"
    "\<forall>r' \<in> set (rows underpaid). link_param underpaid r' = link_param underpaid ?r \<longrightarrow> r' = ?r"
    by (simp_all add: underpaid_def df_empty_def KEEP_COLUMNS_def)
  then have stored: "?v \<in> set (snd (save_jobs no_parse [] underpaid ''python'' ''2026-01-01 10:00:00''))"
    using inst v by simp
  have "get_num oversized ''salario_min'' salario_min (hd (rows oversized)) = NInt (10 ^ 309)"
    by (simp add: oversized_def KEEP_COLUMNS_def EMPTY_ROW_def get_num_def)
  then have "skipped no_parse oversized (hd (rows oversized))"
    using salary_stored_unchecked [of no_parse oversized "hd (rows oversized)"]
    by (simp add: too_large_def)
  then show ?thesis
    using v fields stored by simp
qed

text \<open>The claim as the specification states it fails: negative salaries are stored as they
  come.\<close>

theorem salary_negative_counterexample:
  "map v_salario_min (snd (save_jobs no_parse [] underpaid ''python'' ''2026-01-01 10:00:00''))
     = [Some (Finite (- 5000))]
   \<and> map v_salario_max (snd (save_jobs no_parse [] underpaid ''python'' ''2026-01-01 10:00:00''))
     = [Some (Finite (- 9000))]
   \<and> (- 5000 :: real) < 0"
  by (simp add: save_jobs_def underpaid_def df_empty_def KEEP_COLUMNS_def EMPTY_ROW_def
      insert_or_ignore_def row_values_def get_num_def db_float_def bind_real_def)

section \<open>The skill filter\<close>

lemma match_str_eq:
  "match_str ic ps (bef, aft, caps) =
     (if length ps \<le> length aft \<and> list_all2 (literal_match ic) ps (take (length ps) aft)
      then [(rev (take (length ps) aft) @ bef, drop (length ps) aft, caps)] else [])"
proof (induction ps arbitrary: bef aft)
  case Nil
  then show ?case by simp
next
  case (Cons p ps)
  show ?case
  proof (cases aft)
    case Nil
    then show ?thesis by simp
  next
    case (Cons c aft')
    then show ?thesis
      using Cons.IH [of "c # bef" aft'] by simp
  qed
qed

lemma ms_Branch: "ms ic (Branch rs) st = concat (map (\<lambda>r. ms ic r st) rs)"
  by (induction rs) simp_all

lemma search_from_None_iff:
  "search_from ic r bef aft = None \<longleftrightarrow> (\<forall>p s. aft = p @ s \<longrightarrow> ms ic r (rev p @ bef, s, []) = [])"
proof (induction aft arbitrary: bef)
  case Nil
  then show ?case by (simp split: list.splits)
next
  case (Cons c aft)
  have split: "(\<forall>p s. c # aft = p @ s \<longrightarrow> ms ic r (rev p @ bef, s, []) = [])
      \<longleftrightarrow> ms ic r (bef, c # aft, []) = []
          \<and> (\<forall>p s. aft = p @ s \<longrightarrow> ms ic r (rev p @ c # bef, s, []) = [])"
    (is "?L \<longleftrightarrow> ?R")
  proof
    assume L: ?L
    have "ms ic r (bef, c # aft, []) = []"
      using L [rule_format, of "[]" "c # aft"] by simp
    moreover have "ms ic r (rev p @ c # bef, s, []) = []" if "aft = p @ s" for p s
      using L [rule_format, of "c # p" s] that by simp
    ultimately show ?R by blast
  next
    assume R: ?R
    show ?L
    proof (intro allI impI)
      fix p s assume e: "c # aft = p @ s"
      show "ms ic r (rev p @ bef, s, []) = []"
      proof (cases p)
        case Nil
        with e R show ?thesis by simp
      next
        case (Cons x p')
        with e have "x = c" "aft = p' @ s" by simp_all
        with R Cons show ?thesis by simp
      qed
    qed
  qed
  show ?case
    unfolding split using Cons.IH [of "c # bef"] by (simp split: list.splits)
qed

lemma literal_match_all:
  "list_all2 (literal_match True) ps w \<longleftrightarrow> map lower w = map lower ps"
  by (induction ps arbitrary: w) (auto simp: literal_match_def list_all2_Cons1)

lemma sublist_split:
  "sublist k t \<longleftrightarrow> (\<exists>p s. t = p @ s \<and> length k \<le> length s \<and> take (length k) s = k)"
proof
  assume "sublist k t"
  then obtain p s where "t = p @ k @ s"
    by (auto simp: sublist_def)
  then show "\<exists>p s. t = p @ s \<and> length k \<le> length s \<and> take (length k) s = k"
    by (intro exI [of _ p] exI [of _ "k @ s"]) simp
next
  assume "\<exists>p s. t = p @ s \<and> length k \<le> length s \<and> take (length k) s = k"
  then obtain p s where "t = p @ s" "take (length k) s = k"
    by blast
  then have "t = p @ k @ drop (length k) s"
    by (metis append_take_drop_id)
  then show "sublist k t"
    by (auto simp: sublist_def)
qed

lemma contains_keywords:
  "str_contains True (Branch (map re_escape ks)) t
     \<longleftrightarrow> (\<exists>k \<in> set ks. sublist (map lower k) (map lower t))"
proof -
  have m: "ms True (Branch (map re_escape ks)) (bef, s, []) = []
      \<longleftrightarrow> (\<forall>k \<in> set ks. \<not> (length k \<le> length s \<and> map lower (take (length k) s) = map lower k))"
    for bef s
    by (induction ks) (simp_all add: re_escape_def match_str_eq literal_match_all)
  have "str_contains True (Branch (map re_escape ks)) t
      \<longleftrightarrow> (\<exists>p s. t = p @ s \<and> ms True (Branch (map re_escape ks)) (rev p, s, []) \<noteq> [])"
    by (simp add: str_contains_def re_search_def search_from_None_iff)
  also have "\<dots> \<longleftrightarrow> (\<exists>p s. t = p @ s \<and> (\<exists>k \<in> set ks. length k \<le> length s
                                  \<and> map lower (take (length k) s) = map lower k))"
    by (simp only: m) blast
  also have "\<dots> \<longleftrightarrow> (\<exists>k \<in> set ks. \<exists>p s. t = p @ s \<and> length k \<le> length s
                                  \<and> map lower (take (length k) s) = map lower k)"
    by blast
  also have "\<dots> \<longleftrightarrow> (\<exists>k \<in> set ks. sublist (map lower k) (map lower t))"
  proof -
    have "(\<exists>p s. t = p @ s \<and> length k \<le> length s \<and> map lower (take (length k) s) = map lower k)
        \<longleftrightarrow> sublist (map lower k) (map lower t)" for k
    proof
      assume "\<exists>p s. t = p @ s \<and> length k \<le> length s \<and> map lower (take (length k) s) = map lower k"
      then obtain p s where ps: "t = p @ s" "length k \<le> length s"
        "map lower (take (length k) s) = map lower k" by blast
      have "map lower t = map lower p @ map lower k @ map lower (drop (length k) s)"
        using ps by (metis append_take_drop_id map_append)
      then show "sublist (map lower k) (map lower t)"
        by (auto simp: sublist_def)
    next
      assume "sublist (map lower k) (map lower t)"
      then obtain a b where ab: "map lower t = a @ map lower k @ b"
        by (auto simp: sublist_def)
      let ?p = "take (length a) t"
      let ?s = "drop (length a) t"
      have "length (map lower t) = length (a @ map lower k @ b)"
        using ab by simp
      then have len: "length t = length a + length k + length b"
        by simp
      have "map lower ?s = map lower k @ b"
        using ab by (metis append_eq_conv_conj drop_map)
      then have "map lower (take (length k) ?s) = map lower k"
        by (metis append_eq_conv_conj length_map take_map)
      moreover have "length k \<le> length ?s"
        using len by simp
      ultimately show "\<exists>p s. t = p @ s \<and> length k \<le> length s
          \<and> map lower (take (length k) s) = map lower k"
        by (intro exI [of _ ?p] exI [of _ ?s]) simp
    qed
    then show ?thesis by simp
  qed
  finally show ?thesis .
qed


lemma row_mask_keywords:
  "row_mask df (Branch (map re_escape ks)) r
     \<longleftrightarrow> (\<exists>k \<in> set ks.
            (''titulo'' \<in> set (columns df)
               \<and> sublist (map lower k) (map lower (fillna_str (titulo r))))
          \<or> (''descricao'' \<in> set (columns df)
               \<and> sublist (map lower k) (map lower (fillna_str (descricao r)))))"
  unfolding row_mask_def contains_keywords by blast

text \<open>
  Claim C7, as the program has it. The keywords of \<open>filter_by_skills\<close> are the entries of
  the list without the whitespace around them, the entries that are empty after that left
  out. With no keyword (an empty list, or only blank entries) the frame is returned as it
  is. Otherwise, in a frame with at least one column, the rows kept are exactly those in
  which some keyword occurs as a contiguous part of the title or of the description, both
  compared in lower case; a missing title or description holds no keyword.
\<close>

theorem skills_keep_rows_with_keyword:
  "filter_by_skills df [] = df
   \<and> (filter (\<lambda>k. k \<noteq> []) (map strip skills) = [] \<longrightarrow> filter_by_skills df skills = df)
   \<and> (filter (\<lambda>k. k \<noteq> []) (map strip skills) \<noteq> [] \<and> columns df \<noteq> [] \<longrightarrow>
        columns (filter_by_skills df skills) = columns df
        \<and> rows (filter_by_skills df skills)
            = filter (\<lambda>r. \<exists>k \<in> set (map strip skills). k \<noteq> []
                          \<and> ((''titulo'' \<in> set (columns df)
                                 \<and> sublist (map lower k) (map lower (fillna_str (titulo r))))
                               \<or> (''descricao'' \<in> set (columns df)
                                 \<and> sublist (map lower k) (map lower (fillna_str (descricao r))))))
                (rows df))"
proof -
  let ?ks = "filter (\<lambda>k. k \<noteq> []) (map strip skills)"
  let ?keep = "\<lambda>r. \<exists>k \<in> set (map strip skills). k \<noteq> []
                          \<and> ((''titulo'' \<in> set (columns df)
                                 \<and> sublist (map lower k) (map lower (fillna_str (titulo r))))
                               \<or> (''descricao'' \<in> set (columns df)
                                 \<and> sublist (map lower k) (map lower (fillna_str (descricao r)))))"
  have a: "filter_by_skills df [] = df"
    by (simp add: filter_by_skills_def)
  have b: "filter_by_skills df skills = df" if "?ks = []"
    using that by (simp add: filter_by_skills_def)
  have m: "row_mask df (Branch (map re_escape ?ks)) = ?keep"
    by (intro ext) (auto simp: row_mask_keywords)
  have c: "columns (filter_by_skills df skills) = columns df"
    by (simp add: filter_by_skills_def Let_def)
  have d: "rows (filter_by_skills df skills) = filter ?keep (rows df)"
    if ne: "?ks \<noteq> []" and cols: "columns df \<noteq> []"
  proof (cases "rows df = []")
    case True
    then show ?thesis by (simp add: filter_by_skills_def df_empty_def)
  next
    case False
    have "skills \<noteq> []"
      using ne by auto
    then show ?thesis
      using False ne cols by (simp add: filter_by_skills_def df_empty_def Let_def m)
  qed
  show ?thesis
    using a b c d by blast
qed

theorem skills_keep_rows_with_keyword_witness:
  "filter (\<lambda>k. k \<noteq> []) (map strip ['' py '', '' '']) = [''py'']
   \<and> columns padded \<noteq> []
   \<and> columns (filter_by_skills padded ['' py '', '' '']) = columns padded
   \<and> map titulo (rows (filter_by_skills padded ['' py '', '' ''])) = [TStr ''Python dev'']
   \<and> map titulo (rows (filter_by_skills padded [''java''])) = []"
proof -
  have k: "filter (\<lambda>k. k \<noteq> []) (map strip ['' py '', '' '']) = [''py'']"
    by (simp add: strip_def is_space_def between_def code_def)
  have c: "columns padded \<noteq> []"
    by (simp add: padded_def KEEP_COLUMNS_def)
  have t: "columns (filter_by_skills padded ['' py '', '' '']) = columns padded"
    using skills_keep_rows_with_keyword [where df = padded and skills = "['' py '', '' '']"] k c
    by simp
  have e1: "map titulo (rows (filter_by_skills padded ['' py '', '' ''])) = [TStr ''Python dev'']"
    by code_simp
  have e2: "map titulo (rows (filter_by_skills padded [''java''])) = []"
    by code_simp
  show ?thesis
    using k c t e1 e2 by simp
qed

text \<open>The claim as the specification states it fails for a keyword with blanks around it:
  \<open>" py "\<close> occurs neither in the title \<open>Python dev\<close> nor in the missing description, and
  the row is kept.\<close>

theorem skills_padded_keyword_counterexample:
  "map titulo (rows padded) = [TStr ''Python dev'']
   \<and> map descricao (rows padded) = [TNone]
   \<and> \<not> sublist (map lower '' py '') (map lower ''Python dev'')
   \<and> \<not> sublist (map lower '' py '') (map lower [])
   \<and> map titulo (rows (filter_by_skills padded ['' py ''])) = [TStr ''Python dev'']"
  by code_simp

section \<open>Character classes\<close>

lemma code_less: "code c < 256"
  unfolding code_def by (rule nat_of_char_less_256)

lemma code_char_of: "n < 256 \<Longrightarrow> code (char_of n) = n"
  by (simp add: code_def)

lemma code_lower: "code (lower c) = (if is_upper c then code c + 32 else code c)"
  using code_less [of c] by (auto simp: lower_def is_upper_def between_def code_char_of)

lemma code_partner:
  "code (partner c) = (if between 0x61 0x7A c \<or> between 0xE0 0xF6 c \<or> between 0xF8 0xFE c
                        then code c - 32 else code c)"
  using code_less [of c] by (auto simp: partner_def between_def code_char_of)

lemma between_code: "between lo hi c \<longleftrightarrow> lo \<le> code c \<and> code c \<le> hi"
  by (simp add: between_def)

lemma codes:
  "code (CHR ''A'') = 0x41" "code (CHR ''Z'') = 0x5A" "code (CHR ''a'') = 0x61"
  "code (CHR ''z'') = 0x7A" "code (CHR 0xC0) = 0xC0" "code (CHR 0xDA) = 0xDA"
  "code (CHR 0xE0) = 0xE0" "code (CHR 0xFA) = 0xFA"
  by (simp_all add: code_def)

lemma initial_iff:
  "initial c \<longleftrightarrow> between 0x41 0x5A c \<or> between 0x61 0x7A c \<or> between 0xC0 0xDA c
                 \<or> between 0xE0 0xF6 c \<or> between 0xF8 0xFA c"
  unfolding initial_def set_match_def item_match_def
  by (simp add: between_code code_lower code_partner is_upper_def codes) arith

lemma letter_iff:
  "letter c \<longleftrightarrow> between 0x41 0x5A c \<or> between 0x61 0x7A c \<or> between 0xC0 0xD6 c
                \<or> between 0xD8 0xDA c \<or> between 0xE0 0xFA c"
  unfolding letter_def set_match_def item_match_def
  by (simp add: between_code code_lower code_partner is_upper_def codes) arith

lemma space_iff: "set_match True [CatSpace] c \<longleftrightarrow> is_space c"
  unfolding set_match_def item_match_def
  by (simp add: is_space_def between_code code_lower code_partner is_upper_def) arith

lemma initial_not_space: "initial c \<Longrightarrow> \<not> is_space c"
  unfolding initial_iff by (simp add: is_space_def between_code) arith

lemma letter_not_space: "letter c \<Longrightarrow> \<not> is_space c"
  unfolding letter_iff by (simp add: is_space_def between_code) arith

lemma code_inj: "code x = code y \<longleftrightarrow> x = y"
  by (simp add: code_def)

lemma lower_eq_iff:
  "lower x = lower c \<longleftrightarrow> x = lower c \<or> x = partner (lower c)"
  unfolding code_inj [symmetric]
  using code_less [of x] code_less [of c]
  by (simp add: code_lower code_partner is_upper_def between_code) arith

text \<open>The test of a set under IGNORECASE is the one announced: the set holds a character
  with the same lower-case form.\<close>

lemma item_match_ignorecase:
  "item_match True it c \<longleftrightarrow> (\<exists>x. in_item it x \<and> lower x = lower c)"
  unfolding item_match_def lower_eq_iff by auto

section \<open>The matcher is sound\<close>

lemma extends_mono: "extends L G st st' \<Longrightarrow> L \<subseteq> L' \<Longrightarrow> G \<subseteq> G' \<Longrightarrow> extends L' G' st st'"
  unfolding extends_def by blast

lemma extends_refl: "[] \<in> L \<Longrightarrow> extends L G st st"
  unfolding extends_def by auto

lemma extends_trans:
  assumes "extends L1 G st st'" and "extends L2 G st' st''"
  shows "extends {u @ v | u v. u \<in> L1 \<and> v \<in> L2} G st st''"
proof -
  from assms(1) obtain w1 n1 where 1: "w1 \<in> L1" "fst (snd st) = w1 @ fst (snd st')"
    "fst st' = rev w1 @ fst st" "snd (snd st') = n1 @ snd (snd st)" "set n1 \<subseteq> G"
    unfolding extends_def by blast
  from assms(2) obtain w2 n2 where 2: "w2 \<in> L2" "fst (snd st') = w2 @ fst (snd st'')"
    "fst st'' = rev w2 @ fst st'" "snd (snd st'') = n2 @ snd (snd st')" "set n2 \<subseteq> G"
    unfolding extends_def by blast
  have "w1 @ w2 \<in> {u @ v | u v. u \<in> L1 \<and> v \<in> L2}"
    using 1(1) 2(1) by blast
  moreover have "fst (snd st) = (w1 @ w2) @ fst (snd st'')"
    using 1(2) 2(2) by simp
  moreover have "fst st'' = rev (w1 @ w2) @ fst st"
    using 1(3) 2(3) by simp
  moreover have "snd (snd st'') = (n2 @ n1) @ snd (snd st)"
    using 1(4) 2(4) by simp
  moreover have "set (n2 @ n1) \<subseteq> G"
    using 1(5) 2(5) by simp
  ultimately show ?thesis
    unfolding extends_def by blast
qed

lemma match_str_sound:
  "st' \<in> set (match_str ic ps st) \<Longrightarrow> extends {w. list_all2 (literal_match ic) ps w} G st st'"
proof (induction ic ps st rule: match_str.induct)
  case (1 ic st)
  then show ?case by (simp add: extends_def)
next
  case (2 ic p ps bef caps)
  then show ?case by simp
next
  case (3 ic p ps bef c aft caps)
  show ?case
  proof (cases "literal_match ic p c")
    case True
    with 3 have "extends {w. list_all2 (literal_match ic) ps w} G (c # bef, aft, caps) st'"
      by simp
    then obtain w new where w: "list_all2 (literal_match ic) ps w" "aft = w @ fst (snd st')"
      "fst st' = rev w @ c # bef" "snd (snd st') = new @ caps" "set new \<subseteq> G"
      unfolding extends_def by auto
    have "list_all2 (literal_match ic) (p # ps) (c # w)"
      using True w(1) by simp
    then show ?thesis
      unfolding extends_def using w by (intro exI [of _ "c # w"] exI [of _ new]) simp
  next
    case False
    with 3 show ?thesis by simp
  qed
qed

lemma captured_simps [simp]:
  "captured ic (Seqs []) = {}"
  "captured ic (Seqs (r # rs)) = captured ic r \<union> captured ic (Seqs rs)"
  "captured ic (Branch []) = {}"
  "captured ic (Branch (r # rs)) = captured ic r \<union> captured ic (Branch rs)"
  "captured ic (MaxRepeat lo hi r) = captured ic r"
  "captured ic (Subpattern g r) = {(g, x) | x. x \<in> lang ic r} \<union> captured ic r"
  "captured ic (Literal p) = {}"
  "captured ic (Str ps) = {}"
  "captured ic (In items) = {}"
  "captured ic AtBoundary = {}"
  by (auto simp: captured_def)

lemma iter_sound:
  assumes f: "\<And>st st'. st' \<in> set (f st) \<Longrightarrow> extends L G st st'"
  shows "st' \<in> set (iter f k lo hi st) \<Longrightarrow>
         extends {concat ws | ws. lo \<le> length ws
                    \<and> (case hi of None \<Rightarrow> True | Some h \<Rightarrow> length ws \<le> h) \<and> set ws \<subseteq> L} G st st'"
proof (induction k arbitrary: lo hi st)
  case 0
  then have e: "st' = st" "lo = 0"
    by (simp_all split: if_splits)
  have "[] \<in> {concat ws | ws. lo \<le> length ws
                    \<and> (case hi of None \<Rightarrow> True | Some h \<Rightarrow> length ws \<le> h) \<and> set ws \<subseteq> L}"
    unfolding e(2) by (intro CollectI exI [of _ "[]"]) (simp split: option.split)
  then show ?case
    unfolding e(1) by (rule extends_refl)
next
  case (Suc k)
  let ?L' = "\<lambda>lo hi. {concat ws | ws. lo \<le> length ws
                    \<and> (case hi of None \<Rightarrow> True | Some h \<Rightarrow> length ws \<le> h) \<and> set ws \<subseteq> L}"
  from Suc.prems have "(lo = 0 \<and> st' = st)
    \<or> (hi \<noteq> Some 0 \<and> (\<exists>st1 \<in> set (f st).
          st' \<in> set (iter f k (lo - 1) (map_option (\<lambda>h. h - 1) hi) st1)))"
    by (auto split: if_splits)
  then show ?case
  proof (elim disjE conjE bexE)
    assume e: "lo = 0" "st' = st"
    have "[] \<in> ?L' lo hi"
      unfolding e(1) by (intro CollectI exI [of _ "[]"]) (simp split: option.split)
    then show ?thesis
      unfolding e(2) by (rule extends_refl)
  next
    fix st1
    assume more: "hi \<noteq> Some 0" "st1 \<in> set (f st)"
      "st' \<in> set (iter f k (lo - 1) (map_option (\<lambda>h. h - 1) hi) st1)"
    have 1: "extends L G st st1"
      using more(2) by (rule f)
    have 2: "extends (?L' (lo - 1) (map_option (\<lambda>h. h - 1) hi)) G st1 st'"
      using more(3) by (rule Suc.IH)
    have sub: "{u @ v | u v. u \<in> L \<and> v \<in> ?L' (lo - 1) (map_option (\<lambda>h. h - 1) hi)} \<subseteq> ?L' lo hi"
    proof
      fix x assume "x \<in> {u @ v | u v. u \<in> L \<and> v \<in> ?L' (lo - 1) (map_option (\<lambda>h. h - 1) hi)}"
      then obtain u ws where x: "x = u @ concat ws" "u \<in> L" "lo - 1 \<le> length ws"
        "case map_option (\<lambda>h. h - 1) hi of None \<Rightarrow> True | Some h \<Rightarrow> length ws \<le> h" "set ws \<subseteq> L"
        by blast
      have a: "x = concat (u # ws)" using x(1) by simp
      have b: "lo \<le> length (u # ws)" using x(3) by simp
      have c: "case hi of None \<Rightarrow> True | Some h \<Rightarrow> length (u # ws) \<le> h"
        using x(4) more(1) by (cases hi) auto
      have d: "set (u # ws) \<subseteq> L" using x(2,5) by simp
      show "x \<in> ?L' lo hi"
        using a b c d by (intro CollectI exI [of _ "u # ws"]) simp
    qed
    show ?thesis
      using extends_mono [OF extends_trans [OF 1 2] sub subset_refl] .
  qed
qed

lemma ms_sound: "st' \<in> set (ms ic r st) \<Longrightarrow> extends (lang ic r) (captured ic r) st st'"
proof (induction ic r st arbitrary: st' rule: ms.induct)
  case (1 ic p st)
  have "{w. list_all2 (literal_match ic) [p] w} = {[c] | c. literal_match ic p c}"
    by (auto simp: list_all2_Cons1)
  with 1 match_str_sound [of st' ic "[p]" st "{}"] show ?case by simp
next
  case (2 ic ps st)
  with match_str_sound [of st' ic ps st "{}"] show ?case by simp
next
  case (3 ic items bef caps)
  then show ?case by simp
next
  case (4 ic items bef c aft caps)
  then have "set_match ic items c" "st' = (c # bef, aft, caps)"
    by (simp_all split: if_splits)
  then show ?case
    unfolding extends_def by (intro exI [of _ "[c]"] exI [of _ "[]"]) simp
next
  case (5 ic bef aft caps)
  then show ?case by (auto simp: extends_def split: if_splits)
next
  case (6 ic st)
  then show ?case by (simp add: extends_def)
next
  case (7 ic r rs st)
  from "7.prems" obtain st1 where st1: "st1 \<in> set (ms ic r st)" "st' \<in> set (ms ic (Seqs rs) st1)"
    by auto
  have a: "extends (lang ic r) (captured ic (Seqs (r # rs))) st st1"
    using extends_mono [OF "7.IH"(1) [OF st1(1)]] by simp
  have b: "extends (lang ic (Seqs rs)) (captured ic (Seqs (r # rs))) st1 st'"
    using extends_mono [OF "7.IH"(2) [OF st1(1) st1(2)]] by simp
  show ?case
    using extends_trans [OF a b] by simp
next
  case (8 ic st)
  then show ?case by simp
next
  case (9 ic r rs st)
  from "9.prems" have "st' \<in> set (ms ic r st) \<or> st' \<in> set (ms ic (Branch rs) st)"
    by simp
  then show ?case
  proof
    assume 1: "st' \<in> set (ms ic r st)"
    show ?thesis using extends_mono [OF "9.IH"(1) [OF 1]] by simp
  next
    assume 2: "st' \<in> set (ms ic (Branch rs) st)"
    show ?thesis using extends_mono [OF "9.IH"(2) [OF 2]] by simp
  qed
next
  case (10 ic lo hi r st)
  have "extends {concat ws | ws. lo \<le> length ws
                    \<and> (case hi of None \<Rightarrow> True | Some h \<Rightarrow> length ws \<le> h) \<and> set ws \<subseteq> lang ic r}
          (captured ic r) st st'"
  proof (rule iter_sound [where f = "ms ic r" and k = "length (ahead st)"])
    show "st' \<in> set (iter (ms ic r) (length (ahead st)) lo hi st)"
      using "10.prems" by simp
    show "extends (lang ic r) (captured ic r) a b" if "b \<in> set (ms ic r a)" for a b
      using that by (rule "10.IH")
  qed
  then show ?case by simp
next
  case (11 ic g r bef aft caps)
  from "11.prems" obtain bef' aft' caps' where r: "(bef', aft', caps') \<in> set (ms ic r (bef, aft, caps))"
    "st' = (bef', aft', (g, take (length aft - length aft') aft) # caps')"
    by auto
  from "11.IH" [OF r(1)] obtain w new where w: "w \<in> lang ic r" "aft = w @ aft'" "bef' = rev w @ bef"
    "caps' = new @ caps" "set new \<subseteq> captured ic r"
    unfolding extends_def by auto
  have t: "take (length aft - length aft') aft = w"
    using w(2) by simp
  show ?case
    unfolding extends_def
    using w r(2) t by (intro exI [of _ w] exI [of _ "(g, w) # new"]) auto
qed

lemma search_from_Some:
  "search_from ic r bef aft = Some m \<Longrightarrow>
   \<exists>p q st rest. aft = p @ q
     \<and> (\<forall>p' q'. aft = p' @ q' \<and> length p' < length p \<longrightarrow> ms ic r (rev p' @ bef, q', []) = [])
     \<and> ms ic r (rev p @ bef, q, []) = st # rest \<and> m = mk_match q st"
proof (induction aft arbitrary: bef)
  case Nil
  then obtain st rest where "ms ic r (bef, [], []) = st # rest" "m = mk_match [] st"
    by (auto split: list.splits)
  then show ?case
    by (intro exI [of _ "[]"] exI [of _ st] exI [of _ rest]) simp
next
  case (Cons c aft)
  show ?case
  proof (cases "ms ic r (bef, c # aft, [])")
    case Nil
    with Cons.prems have "search_from ic r (c # bef) aft = Some m"
      by simp
    from Cons.IH [OF this] obtain p q st rest where pq: "aft = p @ q"
      "\<forall>p' q'. aft = p' @ q' \<and> length p' < length p \<longrightarrow> ms ic r (rev p' @ c # bef, q', []) = []"
      "ms ic r (rev p @ c # bef, q, []) = st # rest" "m = mk_match q st"
      by blast
    have left: "ms ic r (rev p' @ bef, q', []) = []"
      if "c # aft = p' @ q'" "length p' < length (c # p)" for p' q'
    proof (cases p')
      case Nil
      with that \<open>ms ic r (bef, c # aft, []) = []\<close> show ?thesis by simp
    next
      case (Cons x p'')
      with that have "x = c" "aft = p'' @ q'" "length p'' < length p" by simp_all
      with pq(2) Cons show ?thesis by simp
    qed
    show ?thesis
      using pq(1,3,4) left
      by (intro exI [of _ "c # p"] exI [of _ q] exI [of _ st] exI [of _ rest]) simp
  next
    case (Cons st rest)
    with Cons.prems have "m = mk_match (c # aft) st"
      by simp
    with Cons show ?thesis
      by (intro exI [of _ "[]"] exI [of _ "c # aft"] exI [of _ st] exI [of _ rest]) simp
  qed
qed

lemma ms_Branch_hd:
  "ms ic (Branch rs) st = st' # rest \<Longrightarrow>
   \<exists>k<length rs. (\<forall>j<k. ms ic (rs ! j) st = []) \<and> (\<exists>rest'. ms ic (rs ! k) st = st' # rest')"
proof (induction rs)
  case Nil
  then show ?case by simp
next
  case (Cons r rs)
  show ?case
  proof (cases "ms ic r st")
    case Nil
    with Cons.prems have "ms ic (Branch rs) st = st' # rest" by simp
    from Cons.IH [OF this] obtain k where k: "k < length rs" "\<forall>j<k. ms ic (rs ! j) st = []"
      "\<exists>rest'. ms ic (rs ! k) st = st' # rest'" by blast
    have "\<forall>j<Suc k. ms ic ((r # rs) ! j) st = []"
      using k(2) Nil by (simp add: All_less_Suc2)
    with k(1,3) show ?thesis
      by (intro exI [of _ "Suc k"]) simp
  next
    case (Cons a as)
    with Cons.prems have "a = st'" by simp
    with Cons show ?thesis
      by (intro exI [of _ 0]) simp
  qed
qed

lemma ms_Branch_empty: "ms ic (Branch rs) st = [] \<longleftrightarrow> (\<forall>r \<in> set rs. ms ic r st = [])"
  by (induction rs) simp_all

lemma first_group_Some:
  "first_group gs = Some n \<Longrightarrow> \<exists>w. Some w \<in> set gs \<and> w \<noteq> [] \<and> n = strip w"
  by (induction gs rule: first_group.induct) (auto split: if_splits)

lemma findall_sound:
  "e \<in> set (findall_from ic r bef aft) \<Longrightarrow> e \<in> lang ic r \<and> sublist e aft"
proof (induction "length aft" arbitrary: bef aft rule: less_induct)
  case less
  show ?case
  proof (cases aft)
    case Nil
    with less.prems have "ms ic r (bef, [], []) \<noteq> []" and e: "e = []"
      by (auto split: list.splits)
    then obtain st rest where st: "ms ic r (bef, [], []) = st # rest"
      by (cases "ms ic r (bef, [], [])") auto
    have "st \<in> set (ms ic r (bef, [], []))"
      using st by simp
    from ms_sound [OF this] have "[] \<in> lang ic r"
      unfolding extends_def by auto
    with e show ?thesis by simp
  next
    case (Cons c aft0)
    show ?thesis
    proof (cases "ms ic r (bef, c # aft0, [])")
      case Nil
      with less.prems Cons have "e \<in> set (findall_from ic r (c # bef) aft0)"
        by simp
      from less.hyps [OF _ this] Cons show ?thesis
        by (simp add: sublist_Cons_right)
    next
      case (Cons st rest)
      obtain bef' aft' caps' where st: "st = (bef', aft', caps')"
        by (cases st) auto
      have "st \<in> set (ms ic r (bef, c # aft0, []))"
        using Cons by simp
      from ms_sound [OF this] obtain w where w: "w \<in> lang ic r" "c # aft0 = w @ aft'"
        unfolding extends_def st by auto
      have len: "Suc (length aft0) = length w + length aft'"
        using w(2) by (metis length_Cons length_append)
      have sub: "sublist aft' aft"
        using w(2) \<open>aft = c # aft0\<close> by (metis sublist_append_leftI)
      show ?thesis
      proof (cases "length aft' \<le> length aft0")
        case True
        have tk: "take (Suc (length aft0) - length aft') (c # aft0) = w"
          using w(2) len by simp
        from less.prems \<open>aft = c # aft0\<close> Cons st True tk
        have "e = w \<or> e \<in> set (findall_from ic r bef' aft')"
          by simp
        then show ?thesis
        proof
          assume "e = w"
          then show ?thesis
            using w \<open>aft = c # aft0\<close> by (metis sublist_append_rightI)
        next
          assume e: "e \<in> set (findall_from ic r bef' aft')"
          have "length aft' < length aft"
            using True \<open>aft = c # aft0\<close> by simp
          from less.hyps [OF this e] sub show ?thesis
            using sublist_order.order_trans by blast
        qed
      next
        case False
        then have "length w = 0"
          using len by linarith
        then have "w = []"
          by simp
        from less.prems \<open>aft = c # aft0\<close> Cons st False
        have "e = [] \<or> e \<in> set (findall_from ic r (c # bef) aft0)"
          by simp
        then show ?thesis
        proof
          assume "e = []"
          then show ?thesis
            using w(1) \<open>w = []\<close> by simp
        next
          assume e: "e \<in> set (findall_from ic r (c # bef) aft0)"
          from less.hyps [OF _ e] \<open>aft = c # aft0\<close> show ?thesis
            by (simp add: sublist_Cons_right)
        qed
      qed
    qed
  qed
qed

section \<open>The recruiter's name\<close>

lemma concat_singletons:
  "set ws \<subseteq> {[c] | c. P c} \<Longrightarrow> list_all P (concat ws) \<and> length (concat ws) = length ws"
  by (induction ws) auto

lemma lang_plus_class:
  assumes "w \<in> lang ic (MaxRepeat 1 None (In items))"
  shows "w \<noteq> [] \<and> list_all (set_match ic items) w"
proof -
  from assms obtain ws where ws: "w = concat ws" "1 \<le> length ws" "set ws \<subseteq> {[c] | c. set_match ic items c}"
    by auto
  from concat_singletons [OF ws(3)] have "list_all (set_match ic items) w" "length w = length ws"
    using ws(1) by simp_all
  with ws(2) show ?thesis by auto
qed

lemma lang_word:
  assumes "u \<in> lang True (In [Rng (CHR ''A'') (CHR ''Z''), Rng (CHR 0xC0) (CHR 0xDA)])"
    and "v \<in> lang True (MaxRepeat 1 None (In [Rng (CHR ''a'') (CHR ''z''), Rng (CHR 0xE0) (CHR 0xFA)]))"
  shows "name_word (u @ v)"
proof -
  from assms(1) obtain c where c: "u = [c]" "initial c"
    by (auto simp: initial_def)
  from lang_plus_class [OF assms(2)] have "v \<noteq> []" "list_all letter v"
    by (simp_all add: letter_def [abs_def])
  with c show ?thesis by simp
qed

lemma lang_block:
  assumes "b \<in> lang True (Seqs [MaxRepeat 1 None (In [CatSpace]),
              In [Rng (CHR ''A'') (CHR ''Z''), Rng (CHR 0xC0) (CHR 0xDA)],
              MaxRepeat 1 None (In [Rng (CHR ''a'') (CHR ''z''), Rng (CHR 0xE0) (CHR 0xFA)])])"
  shows "\<exists>sp v. b = sp @ v \<and> sp \<noteq> [] \<and> list_all is_space sp \<and> name_word v"
proof -
  from assms obtain sp u v where b: "b = sp @ u @ v"
    "sp \<in> lang True (MaxRepeat 1 None (In [CatSpace]))"
    "u \<in> lang True (In [Rng (CHR ''A'') (CHR ''Z''), Rng (CHR 0xC0) (CHR 0xDA)])"
    "v \<in> lang True (MaxRepeat 1 None (In [Rng (CHR ''a'') (CHR ''z''), Rng (CHR 0xE0) (CHR 0xFA)]))"
    by (simp del: lang.simps(3,9)) blast
  from lang_plus_class [OF b(2)] have "sp \<noteq> []" "list_all is_space sp"
    by (simp_all add: space_iff [abs_def])
  with b(1) lang_word [OF b(3,4)] show ?thesis by blast
qed

lemma lang_person_name: "n \<in> lang True person_name \<Longrightarrow> name_shape n"
proof -
  assume "n \<in> lang True person_name"
  then obtain u v x where n: "n = u @ v @ x"
    "u \<in> lang True (In [Rng (CHR ''A'') (CHR ''Z''), Rng (CHR 0xC0) (CHR 0xDA)])"
    "v \<in> lang True (MaxRepeat 1 None (In [Rng (CHR ''a'') (CHR ''z''), Rng (CHR 0xE0) (CHR 0xFA)]))"
    "x \<in> lang True (MaxRepeat 1 (Some 3) (Seqs [MaxRepeat 1 None (In [CatSpace]),
              In [Rng (CHR ''A'') (CHR ''Z''), Rng (CHR 0xC0) (CHR 0xDA)],
              MaxRepeat 1 None (In [Rng (CHR ''a'') (CHR ''z''), Rng (CHR 0xE0) (CHR 0xFA)])]))"
    unfolding person_name_def by (simp del: lang.simps(3,9)) blast
  from n(4) obtain blocks where bl: "x = concat blocks" "1 \<le> length blocks" "length blocks \<le> 3"
    "set blocks \<subseteq> lang True (Seqs [MaxRepeat 1 None (In [CatSpace]),
              In [Rng (CHR ''A'') (CHR ''Z''), Rng (CHR 0xC0) (CHR 0xDA)],
              MaxRepeat 1 None (In [Rng (CHR ''a'') (CHR ''z''), Rng (CHR 0xE0) (CHR 0xFA)])])"
    by (simp del: lang.simps(3,5,6)) blast
  have "\<forall>b \<in> set blocks. \<exists>sp v. b = sp @ v \<and> sp \<noteq> [] \<and> list_all is_space sp \<and> name_word v"
    using bl(4) lang_block by blast
  moreover have "n = (u @ v) @ concat blocks"
    using n(1) bl(1) by simp
  ultimately show ?thesis
    unfolding name_shape_def using lang_word [OF n(2,3)] bl(2,3) by blast
qed

lemma name_word_ends: "name_word w \<Longrightarrow> w \<noteq> [] \<and> \<not> is_space (hd w) \<and> \<not> is_space (last w)"
proof (cases w)
  case Nil
  assume "name_word w"
  with Nil show ?thesis by simp
next
  case (Cons c cs)
  assume "name_word w"
  with Cons have c: "initial c" "cs \<noteq> []" "list_all letter cs" by simp_all
  then have "letter (last cs)"
    by (simp add: list_all_iff)
  with c Cons show ?thesis
    by (simp add: initial_not_space letter_not_space)
qed

lemma name_shape_ends:
  assumes "name_shape n"
  shows "n \<noteq> [] \<and> \<not> is_space (hd n) \<and> \<not> is_space (last n)"
proof -
  from assms obtain w blocks where n: "n = w @ concat blocks" "name_word w" "1 \<le> length blocks"
    "\<forall>b \<in> set blocks. \<exists>sp v. b = sp @ v \<and> sp \<noteq> [] \<and> list_all is_space sp \<and> name_word v"
    unfolding name_shape_def by blast
  from n(3) have ne: "blocks \<noteq> []" by auto
  then obtain sp v where b: "last blocks = sp @ v" "name_word v"
    using n(4) last_in_set by blast
  have v: "v \<noteq> []" "\<not> is_space (last v)"
    using name_word_ends [OF b(2)] by simp_all
  have "concat blocks = concat (butlast blocks) @ sp @ v"
    using ne b(1) by (metis append_butlast_last_id concat.simps(1,2) concat_append append_Nil2)
  then have "last n = last v"
    using n(1) v(1) by simp
  moreover have "n \<noteq> []" "hd n = hd w"
    using n(1) name_word_ends [OF n(2)] by simp_all
  ultimately show ?thesis
    using v(2) name_word_ends [OF n(2)] by simp
qed

lemma dropWhile_id: "xs \<noteq> [] \<Longrightarrow> \<not> P (hd xs) \<Longrightarrow> dropWhile P xs = xs"
  by (cases xs) simp_all

lemma strip_id: "n \<noteq> [] \<Longrightarrow> \<not> is_space (hd n) \<Longrightarrow> \<not> is_space (last n) \<Longrightarrow> strip n = n"
proof -
  assume n: "n \<noteq> []" "\<not> is_space (hd n)" "\<not> is_space (last n)"
  have 1: "dropWhile is_space n = n"
    using n(1,2) by (rule dropWhile_id)
  have "rev n \<noteq> []" "\<not> is_space (hd (rev n))"
    using n(1,3) by (simp_all add: hd_rev)
  then have 2: "dropWhile is_space (rev n) = rev n"
    by (rule dropWhile_id)
  show ?thesis
    by (simp add: strip_def 1 2)
qed

lemma captured_person_name: "captured ic person_name = {}"
  by (simp add: person_name_def)

lemma captured_name_pattern:
  "k < length NAME_PATTERNS \<Longrightarrow>
   captured True (NAME_PATTERNS ! k) = {(Suc k, x) | x. x \<in> lang True person_name}"
proof -
  assume "k < length NAME_PATTERNS"
  then have "k < 8" by (simp add: NAME_PATTERNS_def)
  then consider "k = 0" | "k = 1" | "k = 2" | "k = 3" | "k = 4" | "k = 5" | "k = 6" | "k = 7"
    by linarith
  then show ?thesis
    by cases (simp_all add: NAME_PATTERNS_def captured_person_name eval_nat_numeral)
qed

lemma name_none:
  assumes "\<forall>p q. s = p @ q \<longrightarrow> (\<forall>r \<in> set NAME_PATTERNS. \<not> matches_at r p q)"
  shows "extract_name_from_text s = None"
proof -
  have "ms True NAME_RE (rev p @ [], q, []) = []" if "s = p @ q" for p q
    using assms that by (simp add: NAME_RE_def ms_Branch_empty matches_at_def)
  then have "re_search True NAME_RE s = None"
    unfolding re_search_def search_from_None_iff by blast
  then show ?thesis
    by (simp add: extract_name_from_text_def)
qed

lemma name_some:
  assumes "extract_name_from_text s = Some n"
  shows "\<exists>p q k. s = p @ q \<and> k < length NAME_PATTERNS
           \<and> (\<forall>p' q'. s = p' @ q' \<and> length p' < length p
                  \<longrightarrow> (\<forall>r \<in> set NAME_PATTERNS. \<not> matches_at r p' q'))
           \<and> (\<forall>j<k. \<not> matches_at (NAME_PATTERNS ! j) p q)
           \<and> matches_at (NAME_PATTERNS ! k) p q
           \<and> group_at (Suc k) (NAME_PATTERNS ! k) p q = Some n
           \<and> name_shape n"
proof -
  from assms obtain m where m: "re_search True NAME_RE s = Some m" "first_group (groups 8 m) = Some n"
    by (auto simp: extract_name_from_text_def split: if_splits option.splits)
  from search_from_Some [OF m(1) [unfolded re_search_def]]
  obtain p q st rest where pq: "s = p @ q"
    "\<forall>p' q'. s = p' @ q' \<and> length p' < length p \<longrightarrow> ms True NAME_RE (rev p' @ [], q', []) = []"
    "ms True NAME_RE (rev p @ [], q, []) = st # rest" "m = mk_match q st"
    by blast
  from ms_Branch_hd [OF pq(3) [unfolded NAME_RE_def]]
  obtain k rest' where k: "k < length NAME_PATTERNS"
    "\<forall>j<k. ms True (NAME_PATTERNS ! j) (rev p @ [], q, []) = []"
    "ms True (NAME_PATTERNS ! k) (rev p @ [], q, []) = st # rest'"
    by blast
  have "st \<in> set (ms True (NAME_PATTERNS ! k) (rev p @ [], q, []))"
    using k(3) by simp
  from ms_sound [OF this] obtain new where new: "snd (snd st) = new @ []"
    "set new \<subseteq> captured True (NAME_PATTERNS ! k)"
    unfolding extends_def by auto
  from first_group_Some [OF m(2)] obtain w where w: "Some w \<in> set (groups 8 m)" "w \<noteq> []" "n = strip w"
    by blast
  from w(1) obtain g where g: "map_of (snd (snd st)) g = Some w"
    by (auto simp: groups_def pq(4) mk_match_def)
  then have "(g, w) \<in> set new"
    using new(1) by (auto dest: map_of_SomeD)
  then have gw: "g = Suc k" "w \<in> lang True person_name"
    using new(2) captured_name_pattern [OF k(1)] by auto
  have shape: "name_shape w"
    using gw(2) by (rule lang_person_name)
  have "strip w = w"
    using name_shape_ends [OF shape] by (simp add: strip_id)
  then have nw: "n = w" using w(3) by simp
  have left: "\<forall>p' q'. s = p' @ q' \<and> length p' < length p
                  \<longrightarrow> (\<forall>r \<in> set NAME_PATTERNS. \<not> matches_at r p' q')"
    using pq(2) by (simp add: NAME_RE_def ms_Branch_empty matches_at_def)
  have first: "\<forall>j<k. \<not> matches_at (NAME_PATTERNS ! j) p q"
    using k(2) by (simp add: matches_at_def)
  have here: "matches_at (NAME_PATTERNS ! k) p q"
    using k(3) by (simp add: matches_at_def)
  have grp: "group_at (Suc k) (NAME_PATTERNS ! k) p q = Some n"
    using k(3) g gw(1) nw by (simp add: group_at_def)
  show ?thesis
    using pq(1) k(1) left first here grp shape nw by blast
qed

lemma caps_grow: "st' \<in> set (ms ic r st) \<Longrightarrow> length (snd (snd st)) \<le> length (snd (snd st'))"
  using ms_sound [of st' ic r st] unfolding extends_def by auto

lemma binds_grow:
  "binds r \<Longrightarrow> st' \<in> set (ms ic r st) \<Longrightarrow> length (snd (snd st)) < length (snd (snd st'))"
proof (induction r arbitrary: st st' rule: binds.induct)
  case (1 g r)
  obtain bef aft caps where st: "st = (bef, aft, caps)"
    by (cases st) auto
  from "1.prems"(2) obtain bef' aft' caps' where r: "(bef', aft', caps') \<in> set (ms ic r (bef, aft, caps))"
    "st' = (bef', aft', (g, take (length aft - length aft') aft) # caps')"
    unfolding st by auto
  from caps_grow [OF r(1)] show ?case
    unfolding st r(2) by simp
next
  case (3 r rs)
  from "3.prems"(2) obtain st1 where st1: "st1 \<in> set (ms ic r st)" "st' \<in> set (ms ic (Seqs rs) st1)"
    by auto
  from "3.prems"(1) have "binds r \<or> binds (Seqs rs)" by simp
  then show ?case
  proof
    assume "binds r"
    from "3.IH"(1) [OF this st1(1)] caps_grow [OF st1(2)] show ?thesis by simp
  next
    assume "binds (Seqs rs)"
    from "3.IH"(2) [OF this st1(2)] caps_grow [OF st1(1)] show ?thesis by simp
  qed
qed simp_all

lemma binds_name_pattern: "k < length NAME_PATTERNS \<Longrightarrow> binds (NAME_PATTERNS ! k)"
proof -
  assume "k < length NAME_PATTERNS"
  then have "k < 8" by (simp add: NAME_PATTERNS_def)
  then consider "k = 0" | "k = 1" | "k = 2" | "k = 3" | "k = 4" | "k = 5" | "k = 6" | "k = 7"
    by linarith
  then show ?thesis
    by cases (simp_all add: NAME_PATTERNS_def)
qed

lemma first_group_None: "first_group gs = None \<Longrightarrow> Some w \<in> set gs \<Longrightarrow> w = []"
  by (induction gs rule: first_group.induct) (auto split: if_splits)

lemma name_found:
  assumes "s = p @ q" and "r \<in> set NAME_PATTERNS" and "matches_at r p q"
  shows "extract_name_from_text s \<noteq> None"
proof
  assume none: "extract_name_from_text s = None"
  have "ms True NAME_RE (rev p @ [], q, []) \<noteq> []"
    using assms(2,3) by (auto simp: NAME_RE_def ms_Branch_empty matches_at_def)
  then have "re_search True NAME_RE s \<noteq> None"
    unfolding re_search_def search_from_None_iff using assms(1) by blast
  then obtain m where m: "re_search True NAME_RE s = Some m" by auto
  have "s \<noteq> []"
  proof
    assume "s = []"
    then have "p = []" "q = []" using assms(1) by simp_all
    moreover have "ms True NAME_RE ([], [], []) = []"
      by (simp add: NAME_RE_def NAME_PATTERNS_def)
    ultimately show False
      using \<open>ms True NAME_RE (rev p @ [], q, []) \<noteq> []\<close> by simp
  qed
  with none m have fg: "first_group (groups 8 m) = None"
    by (simp add: extract_name_from_text_def)
  from search_from_Some [OF m [unfolded re_search_def]]
  obtain p1 q1 st rest where pq: "ms True NAME_RE (rev p1 @ [], q1, []) = st # rest" "m = mk_match q1 st"
    by blast
  from ms_Branch_hd [OF pq(1) [unfolded NAME_RE_def]]
  obtain k rest' where k: "k < length NAME_PATTERNS"
    "ms True (NAME_PATTERNS ! k) (rev p1 @ [], q1, []) = st # rest'"
    by blast
  have mem: "st \<in> set (ms True (NAME_PATTERNS ! k) (rev p1 @ [], q1, []))"
    using k(2) by simp
  from ms_sound [OF mem] obtain new where new: "snd (snd st) = new @ []"
    "set new \<subseteq> captured True (NAME_PATTERNS ! k)"
    unfolding extends_def by auto
  from binds_grow [OF binds_name_pattern [OF k(1)] mem] have "new \<noteq> []"
    using new(1) by auto
  then obtain g w new' where c: "new = (g, w) # new'"
    by (cases new) auto
  then have gw: "g = Suc k" "w \<in> lang True person_name"
    using new(2) captured_name_pattern [OF k(1)] by auto
  have "k < 8" using k(1) by (simp add: NAME_PATTERNS_def)
  then have "Suc k \<in> set [1..<Suc 8]" by simp
  moreover have "map_of (snd m) (Suc k) = Some w"
    using new(1) c gw(1) by (simp add: pq(2) mk_match_def)
  ultimately have "Some w \<in> set (groups 8 m)"
    unfolding groups_def by (metis (no_types, lifting) image_eqI list.set_map)
  from first_group_None [OF fg this] have "w = []" .
  moreover have "w \<noteq> []"
    using name_shape_ends [OF lang_person_name [OF gw(2)]] by simp
  ultimately show False by simp
qed

text \<open>
  Claim C4, as the program has it. \<open>_extract_name_from_text\<close> gives \<open>None\<close> exactly when none
  of the label patterns matches at any place of the text. Otherwise the name comes from
  the leftmost place at which some label pattern matches, and there from the first
  pattern, in list order, that matches: it is the text of that pattern's group. The name
  has two to four words: each a character of the set \<open>[A-Z\<dots>]\<close> followed by one or more of
  the set \<open>[a-z\<dots>]\<close>, the sets taken without regard to case, with whitespace between the
  words.
\<close>

theorem name_from_leftmost_label:
  "(extract_name_from_text s = None
      \<longleftrightarrow> (\<forall>p q. s = p @ q \<longrightarrow> (\<forall>r \<in> set NAME_PATTERNS. \<not> matches_at r p q)))
   \<and> (extract_name_from_text s = Some n \<longrightarrow>
        (\<exists>p q k. s = p @ q \<and> k < length NAME_PATTERNS
           \<and> (\<forall>p' q'. s = p' @ q' \<and> length p' < length p
                  \<longrightarrow> (\<forall>r \<in> set NAME_PATTERNS. \<not> matches_at r p' q'))
           \<and> (\<forall>j<k. \<not> matches_at (NAME_PATTERNS ! j) p q)
           \<and> matches_at (NAME_PATTERNS ! k) p q
           \<and> group_at (Suc k) (NAME_PATTERNS ! k) p q = Some n
           \<and> name_shape n))"
proof -
  have a: "extract_name_from_text s = None
      \<longleftrightarrow> (\<forall>p q. s = p @ q \<longrightarrow> (\<forall>r \<in> set NAME_PATTERNS. \<not> matches_at r p q))"
    using name_none [of s] name_found [of s] by blast
  show ?thesis
    using a name_some [of s n] by blast
qed

theorem name_from_leftmost_label_witness:
  "extract_name_from_text ''Posted by Ana Silva. Recrutador: Joao Souza'' = Some ''Ana Silva''
   \<and> name_shape ''Ana Silva''
   \<and> extract_name_from_text ''Vaga para dev Python'' = None"
proof -
  have e: "extract_name_from_text ''Posted by Ana Silva. Recrutador: Joao Souza'' = Some ''Ana Silva''"
    by code_simp
  have n: "extract_name_from_text ''Vaga para dev Python'' = None"
    by code_simp
  have "name_shape ''Ana Silva''"
    using e name_from_leftmost_label [of "''Posted by Ana Silva. Recrutador: Joao Souza''" "''Ana Silva''"]
    by blast
  with e n show ?thesis by simp
qed

text \<open>The claim as the specification states it fails. The first pattern of the list,
  \<open>Recrutador:\<close>, matches in the text and would capture \<open>Joao Souza\<close>, yet the name is the one
  after \<open>Posted by\<close>, the third pattern, which matches further left. And a name is captured
  that is not capitalized.\<close>

theorem name_priority_counterexample:
  "extract_name_from_text ''Posted by Ana Silva. Recrutador: Joao Souza'' = Some ''Ana Silva''
   \<and> matches_at (NAME_PATTERNS ! 0) ''Posted by Ana Silva. '' ''Recrutador: Joao Souza''
   \<and> group_at 1 (NAME_PATTERNS ! 0) ''Posted by Ana Silva. '' ''Recrutador: Joao Souza''
       = Some ''Joao Souza''
   \<and> extract_name_from_text ''recruiter: john smith is here now ok'' = Some ''john smith is here''
   \<and> \<not> is_upper (CHR ''j'')"
  by code_simp

section \<open>Enrichment\<close>

lemma get_text_rows_update [simp]: "get_text (df\<lparr>rows := rs\<rparr>) = get_text df"
  by (intro ext) (simp add: get_text_def)

lemma descricao_text_rows_update [simp]: "descricao_text (df\<lparr>rows := rs\<rparr>) = descricao_text df"
  by (intro ext) (simp add: descricao_text_def)

lemma get_email_rows_update [simp]: "get_email (df\<lparr>rows := rs\<rparr>) = get_email df"
  by (intro ext) (simp add: get_email_def Let_def cong: if_cong)

lemma enrich_row_rows_update [simp]: "enrich_row (df\<lparr>rows := rs\<rparr>) = enrich_row df"
  by (intro ext) (simp add: enrich_row_def get_name_def)

lemma find_filter: "List.find P xs = (case filter P xs of [] \<Rightarrow> None | x # _ \<Rightarrow> Some x)"
  by (induction xs) auto

lemma findall_email_empty: "re_findall True EMAIL_RE [] = []"
  by (simp add: re_findall_def EMAIL_RE_def ahead_def)

lemma extract_email_find:
  "extract_email_from_text text
     = List.find (\<lambda>e. \<not> (endswith e ''.png'' \<or> endswith e ''.jpg''
                            \<or> endswith e ''.gif'' \<or> endswith e ''.svg''))
         (re_findall True EMAIL_RE text)"
  by (cases "text = []") (simp_all add: extract_email_from_text_def find_filter findall_email_empty Let_def)

text \<open>
  Claim C9. \<open>enrich_recruiter_info\<close> works row by row: the enriched row of a posting is the
  same whether the frame holds the posting once or twice, and the rows of any enriched
  frame are the enriched rows of its postings taken one at a time. A row is changed only in
  \<open>email_recrutador\<close> and \<open>nome_recrutador\<close>, and in losing the \<open>emails\<close> hint, whose column is
  dropped; every other field is as it was.
\<close>

theorem enrichment_row_local:
  "rows (enrich_recruiter_info (df\<lparr>rows := [P]\<rparr>)) = [enrich_row df P]
   \<and> hd (rows (enrich_recruiter_info (df\<lparr>rows := [P, P]\<rparr>)))
       = hd (rows (enrich_recruiter_info (df\<lparr>rows := [P]\<rparr>)))
   \<and> rows (enrich_recruiter_info (df\<lparr>rows := ps\<rparr>))
       = concat (map (\<lambda>p. rows (enrich_recruiter_info (df\<lparr>rows := [p]\<rparr>))) ps)
   \<and> enrich_row df P
       = P\<lparr>email_recrutador := to_cell (get_email df P),
           nome_recrutador := to_cell (get_name df P), emails := TNone\<rparr>
   \<and> site (enrich_row df P) = site P \<and> titulo (enrich_row df P) = titulo P
   \<and> empresa (enrich_row df P) = empresa P \<and> localizacao (enrich_row df P) = localizacao P
   \<and> remoto (enrich_row df P) = remoto P \<and> tipo_vaga (enrich_row df P) = tipo_vaga P
   \<and> salario_min (enrich_row df P) = salario_min P \<and> salario_max (enrich_row df P) = salario_max P
   \<and> moeda (enrich_row df P) = moeda P \<and> data_postagem (enrich_row df P) = data_postagem P
   \<and> link (enrich_row df P) = link P \<and> descricao (enrich_row df P) = descricao P
   \<and> set (columns (enrich_recruiter_info df))
       = (set (columns df) \<union> {''email_recrutador'', ''nome_recrutador''}) - {''emails''}"
proof -
  have a: "rows (enrich_recruiter_info (df\<lparr>rows := ps\<rparr>))
       = concat (map (\<lambda>p. rows (enrich_recruiter_info (df\<lparr>rows := [p]\<rparr>))) ps)" for ps
    by (induction ps) (simp_all add: enrich_recruiter_info_def)
  have b: "set (columns (enrich_recruiter_info df))
       = (set (columns df) \<union> {''email_recrutador'', ''nome_recrutador''}) - {''emails''}"
    by (auto simp: enrich_recruiter_info_def add_column_def)
  show ?thesis
    using a [of ps] b by (simp add: enrich_recruiter_info_def) (simp add: enrich_row_def)
qed

theorem enrichment_row_local_witness:
  "hd (rows (enrich_recruiter_info (hints\<lparr>rows := [rows hints ! 3, rows hints ! 3]\<rparr>)))
     = hd (rows (enrich_recruiter_info (hints\<lparr>rows := [rows hints ! 3]\<rparr>)))
   \<and> link (enrich_row hints (rows hints ! 3)) = TStr ''https://a.example/job/6''
   \<and> descricao (enrich_row hints (rows hints ! 3)) = TStr ''Fale com jane@acme.com''"
  using enrichment_row_local [where df = hints and P = "rows hints ! 3" and ps = "[]"]
  by (simp add: hints_def EMPTY_ROW_def)

text \<open>
  Claim C6, as the program has it. When the \<open>emails\<close> hint of a posting is a string that is
  not empty and not the text \<open>nan\<close> or \<open>None\<close>, \<open>email_recrutador\<close> is the hint without the
  whitespace around it. Otherwise it is the first match of the email pattern in the
  description (a part of the description that the pattern can match) that does not end in
  \<open>.png\<close>, \<open>.jpg\<close>, \<open>.gif\<close> or \<open>.svg\<close>, and \<open>None\<close> when the description has no such match. A description that holds \<open>jane@acme.com\<close> and
  \<open>logo@cdn.example.png\<close> as separate words, in either order, gives \<open>jane@acme.com\<close>.
\<close>

theorem recruiter_email_source:
  "(get_text df ''emails'' emails r = TStr h \<and> h \<notin> {[], ''nan'', ''None''}
      \<longrightarrow> get_email df r = Some (strip h))
   \<and> (get_text df ''emails'' emails r \<in> {TNone, TNaN, TStr [], TStr ''nan'', TStr ''None''}
      \<longrightarrow> get_email df r
          = List.find (\<lambda>e. \<not> (endswith e ''.png'' \<or> endswith e ''.jpg''
                                 \<or> endswith e ''.gif'' \<or> endswith e ''.svg''))
              (re_findall True EMAIL_RE (descricao_text df r)))
   \<and> (extract_email_from_text s = Some e
      \<longrightarrow> e \<in> set (re_findall True EMAIL_RE s) \<and> e \<in> lang True EMAIL_RE \<and> sublist e s
          \<and> \<not> endswith e ''.png'' \<and> \<not> endswith e ''.jpg''
          \<and> \<not> endswith e ''.gif'' \<and> \<not> endswith e ''.svg'')
   \<and> (extract_email_from_text s = None
      \<longleftrightarrow> (\<forall>e \<in> set (re_findall True EMAIL_RE s).
             endswith e ''.png'' \<or> endswith e ''.jpg'' \<or> endswith e ''.gif'' \<or> endswith e ''.svg''))
   \<and> email_recrutador (enrich_row df r) = to_cell (get_email df r)
   \<and> extract_email_from_text ''img logo@cdn.example.png mail jane@acme.com'' = Some ''jane@acme.com''
   \<and> extract_email_from_text ''mail jane@acme.com img logo@cdn.example.png'' = Some ''jane@acme.com''"
proof -
  have a: "get_email df r = Some (strip h)"
    if "get_text df ''emails'' emails r = TStr h" "h \<notin> {[], ''nan'', ''None''}"
    using that by (simp add: get_email_def)
  have b: "get_email df r
          = List.find (\<lambda>e. \<not> (endswith e ''.png'' \<or> endswith e ''.jpg''
                                 \<or> endswith e ''.gif'' \<or> endswith e ''.svg''))
              (re_findall True EMAIL_RE (descricao_text df r))"
    if "get_text df ''emails'' emails r \<in> {TNone, TNaN, TStr [], TStr ''nan'', TStr ''None''}"
    using that by (auto simp: get_email_def extract_email_find)
  have c0: "e \<in> set (re_findall True EMAIL_RE s)
          \<and> \<not> endswith e ''.png'' \<and> \<not> endswith e ''.jpg''
          \<and> \<not> endswith e ''.gif'' \<and> \<not> endswith e ''.svg''"
    if "extract_email_from_text s = Some e"
    using that unfolding extract_email_find by (auto simp: find_Some_iff)
  have c: "e \<in> set (re_findall True EMAIL_RE s) \<and> e \<in> lang True EMAIL_RE \<and> sublist e s
          \<and> \<not> endswith e ''.png'' \<and> \<not> endswith e ''.jpg''
          \<and> \<not> endswith e ''.gif'' \<and> \<not> endswith e ''.svg''"
    if "extract_email_from_text s = Some e"
    using c0 [OF that] findall_sound [of e True EMAIL_RE "[]" s] by (simp add: re_findall_def)
  have d: "extract_email_from_text s = None
      \<longleftrightarrow> (\<forall>e \<in> set (re_findall True EMAIL_RE s).
             endswith e ''.png'' \<or> endswith e ''.jpg'' \<or> endswith e ''.gif'' \<or> endswith e ''.svg'')"
    unfolding extract_email_find by (auto simp: find_None_iff)
  have e: "email_recrutador (enrich_row df r) = to_cell (get_email df r)"
    by (simp add: enrich_row_def)
  have f: "extract_email_from_text ''img logo@cdn.example.png mail jane@acme.com'' = Some ''jane@acme.com''"
    by code_simp
  have g: "extract_email_from_text ''mail jane@acme.com img logo@cdn.example.png'' = Some ''jane@acme.com''"
    by code_simp
  show ?thesis
    using a b c d e f g by blast
qed

theorem recruiter_email_source_witness:
  "get_text hints ''emails'' emails (rows hints ! 3) = TStr ''hr@acme.com''
   \<and> ''hr@acme.com'' \<notin> {[], ''nan'', ''None''}
   \<and> get_email hints (rows hints ! 3) = Some ''hr@acme.com''"
proof -
  have h: "get_text hints ''emails'' emails (rows hints ! 3) = TStr ''hr@acme.com''
           \<and> ''hr@acme.com'' \<notin> {[], ''nan'', ''None''}"
    by (simp add: hints_def get_text_def KEEP_COLUMNS_def EMPTY_ROW_def)
  have s: "strip ''hr@acme.com'' = ''hr@acme.com''"
    by (simp add: strip_def is_space_def between_def code_def)
  show ?thesis
    using h s recruiter_email_source [where df = hints and r = "rows hints ! 3" and h = "''hr@acme.com''"
        and s = "[]" and e = "[]"]
    by simp
qed

text \<open>The claim as the specification states it fails: a hint of one blank is present and
  not empty, and the field becomes the empty string; a hint that reads \<open>nan\<close> is passed over
  for the description.\<close>

theorem recruiter_email_counterexample:
  "get_text hints ''emails'' emails (rows hints ! 0) = TStr '' ''
   \<and> email_recrutador (enrich_row hints (rows hints ! 0)) = TStr []
   \<and> get_text hints ''emails'' emails (rows hints ! 1) = TStr ''nan''
   \<and> email_recrutador (enrich_row hints (rows hints ! 1)) = TStr ''jane@acme.com''"
proof -
  have a: "get_text hints ''emails'' emails (rows hints ! 0) = TStr '' ''
           \<and> get_text hints ''emails'' emails (rows hints ! 1) = TStr ''nan''"
    by (simp add: hints_def get_text_def KEEP_COLUMNS_def EMPTY_ROW_def)
  have b: "get_email hints (rows hints ! 0) = Some []"
    using a by (simp add: get_email_def strip_def is_space_def between_def code_def)
  have "descricao_text hints (rows hints ! 1) = ''Fale com jane@acme.com''"
    by (simp add: descricao_text_def hints_def get_text_def KEEP_COLUMNS_def EMPTY_ROW_def)
  moreover have "extract_email_from_text ''Fale com jane@acme.com'' = Some ''jane@acme.com''"
    by code_simp
  ultimately have c: "get_email hints (rows hints ! 1) = Some ''jane@acme.com''"
    using a by (simp add: get_email_def)
  show ?thesis
    using a b c by (simp add: enrich_row_def)
qed

end
